theory Spec2Isabelle
  imports Complex_Main
begin

section \<open>Data model\<close>

text \<open>
  The program is a single Python module built on numpy and networkx. Floating-point
  numbers are modelled as the reals, without rounding.
  Every exception the module can raise is a value of \<open>error\<close>; a function that can
  raise returns \<open>error + 'a\<close>, with \<open>Inl\<close> the exception.

  The reals have no NaN and no infinity. \<open>NotFinite\<close> is not an exception of the
  program: it is the outcome of a run in which \<open>calculate_partial_correlation\<close>
  divides by zero or takes the root of a negative number. There numpy warns, yields
  an infinity or NaN, and the program goes on and stores it. The outcome
  \<open>Inl NotFinite\<close> says that the run has left the real numbers: an array that the
  program returns after it has an entry that is not a real number.
\<close>

datatype error = ValueError | IndexError | TypeError | KeyError | LinAlgError | NotFinite

text \<open>
  A two-dimensional numpy array is the list of its rows. \<open>corr.shape[0]\<close> is the
  number of rows. The spec's data model has square matrices only (\<open>is_square\<close>);
  reads outside the array raise IndexError as numpy does.
\<close>

type_synonym matrix = "real list list"

definition is_square :: "matrix \<Rightarrow> bool" where
  "is_square C = list_all (\<lambda>row. length row = length C) C"

definition is_symmetric :: "matrix \<Rightarrow> bool" where
  "is_symmetric C =
     list_all (\<lambda>i. list_all (\<lambda>j. C ! i ! j = C ! j ! i) [0..<length C]) [0..<length C]"

text \<open>\<open>C[i, j]\<close> for non-negative indices.\<close>

definition getitem2 :: "matrix \<Rightarrow> nat \<Rightarrow> nat \<Rightarrow> error + real" where
  "getitem2 C i j =
     (if i < length C \<and> j < length (C ! i) then Inr (C ! i ! j) else Inl IndexError)"

text \<open>
  \<open>np.argsort\<close>: the indices that sort the array in ascending order. numpy does not
  fix the order of equal keys; the model is the stable insertion sort of the library,
  and the tie-breaking is a choice of the model.
\<close>

definition argsort :: "real list \<Rightarrow> nat list" where
  "argsort xs = sort_key (\<lambda>i. xs ! i) [0..<length xs]"

text \<open>\<open>C.sum(axis=0)\<close>: the sums of the columns.\<close>

definition column_sums :: "matrix \<Rightarrow> real list" where
  "column_sums C =
     (case C of [] \<Rightarrow> []
      | r # rs \<Rightarrow> map (\<lambda>j. sum_list (map (\<lambda>row. row ! j) C)) [0..<length r])"

subsection \<open>The graph collaborator\<close>

text \<open>
  \<open>nx.Graph\<close>: an undirected graph with weighted edges. The model keeps the nodes and
  the edges in the order of their insertion; an edge is stored once, under the
  orientation of its first insertion, and is found under both orientations.
  \<open>add_edge\<close> adds missing end points to the node set, and on an edge that is already
  present only overwrites the weight.
\<close>

record graph =
  nodes :: "nat list"
  edges :: "((nat \<times> nat) \<times> real) list"

definition empty_graph :: graph where
  "empty_graph = \<lparr>nodes = [], edges = []\<rparr>"

definition add_node :: "graph \<Rightarrow> nat \<Rightarrow> graph" where
  "add_node G v = (if v \<in> set (nodes G) then G else G\<lparr>nodes := nodes G @ [v]\<rparr>)"

definition add_nodes_from :: "graph \<Rightarrow> nat list \<Rightarrow> graph" where
  "add_nodes_from G vs = foldl add_node G vs"

definition same_edge :: "nat \<Rightarrow> nat \<Rightarrow> (nat \<times> nat) \<Rightarrow> bool" where
  "same_edge u v e = (e = (u, v) \<or> e = (v, u))"

definition has_edge :: "graph \<Rightarrow> nat \<Rightarrow> nat \<Rightarrow> bool" where
  "has_edge G u v = list_ex (\<lambda>(e, w). same_edge u v e) (edges G)"

definition add_edge :: "graph \<Rightarrow> nat \<Rightarrow> nat \<Rightarrow> real \<Rightarrow> graph" where
  "add_edge G u v w =
     (let G' = add_node (add_node G u) v
      in if has_edge G' u v
         then G'\<lparr>edges := map (\<lambda>(e, x). if same_edge u v e then (e, w) else (e, x)) (edges G')\<rparr>
         else G'\<lparr>edges := edges G' @ [((u, v), w)]\<rparr>)"

definition remove_edge :: "graph \<Rightarrow> nat \<Rightarrow> nat \<Rightarrow> graph" where
  "remove_edge G u v = G\<lparr>edges := filter (\<lambda>(e, w). \<not> same_edge u v e) (edges G)\<rparr>"

definition number_of_edges :: "graph \<Rightarrow> nat" where
  "number_of_edges G = length (edges G)"

section \<open>The TMFG builder\<close>

text \<open>
  A face is a Python \<open>frozenset\<close> of node ids; the model keeps it as the sorted list of
  its members, so that two faces are equal exactly when they have the same members.
  The set of faces is a list without repetitions, in insertion order (Python fixes no
  iteration order for a set; the order is a choice of the model).
\<close>

type_synonym face = "nat list"

definition frozenset :: "nat list \<Rightarrow> face" where
  "frozenset xs = sort (remdups xs)"

definition faces_add :: "face list \<Rightarrow> face \<Rightarrow> face list" where
  "faces_add fs f = (if f \<in> set fs then fs else fs @ [f])"

definition faces_remove :: "face list \<Rightarrow> face \<Rightarrow> error + face list" where
  "faces_remove fs f = (if f \<in> set fs then Inr (remove1 f fs) else Inl KeyError)"

text \<open>
  \<open>_calculate_new_faces(faces, new, old_set)\<close>: removes the old face (KeyError when it
  is not there) and adds the three faces of the new node; \<open>old_set[2]\<close> raises
  IndexError on a shorter list.
\<close>

definition calculate_new_faces :: "face list \<Rightarrow> nat \<Rightarrow> nat list \<Rightarrow> error + face list" where
  "calculate_new_faces faces new old_set =
     (case faces_remove faces (frozenset old_set) of
        Inl e \<Rightarrow> Inl e
      | Inr fs \<Rightarrow>
          if length old_set < 3 then Inl IndexError
          else Inr (faces_add
                 (faces_add
                   (faces_add fs (frozenset [new, old_set ! 1, old_set ! 0]))
                   (frozenset [new, old_set ! 0, old_set ! 2]))
                 (frozenset [new, old_set ! 1, old_set ! 2])))"

text \<open>
  The node argument of \<open>_add_triangular_face\<close> is a Python value: a scalar node id, or
  something with a length (\<open>collections.Sized\<close>), which the routine rejects.
\<close>

datatype node_arg = Scalar nat | Sized "nat list"

fun add_face_edges :: "graph \<Rightarrow> nat \<Rightarrow> nat list \<Rightarrow> matrix \<Rightarrow> error + graph" where
  "add_face_edges G new [] C = Inr G"
| "add_face_edges G new (j # js) C =
     (case getitem2 C new j of
        Inl e \<Rightarrow> Inl e
      | Inr w \<Rightarrow> add_face_edges (add_edge G new j w) new js C)"

fun add_triangular_face ::
  "graph \<Rightarrow> node_arg \<Rightarrow> nat list \<Rightarrow> matrix \<Rightarrow> face list \<Rightarrow> error + graph" where
  "add_triangular_face G (Sized xs) old_set C faces = Inl ValueError"
| "add_triangular_face G (Scalar new) old_set C faces =
     (if length old_set > 3 then Inl ValueError
      else add_face_edges G new old_set C)"

text \<open>
  One pass of the \<open>for ind in faces\<close> loop. \<open>max_i\<close> starts as the integer \<open>-1\<close> and
  becomes a one-element array when a face is chosen: \<open>None\<close> is the integer, \<open>Some n\<close>
  the array holding \<open>n\<close>. The fancy indexing \<open>weight_corr[ind_arr, :][:, not_in_arr]\<close>
  raises IndexError on an index outside the matrix.
\<close>

type_synonym best = "real \<times> nat option \<times> nat list option"

definition face_step :: "matrix \<Rightarrow> nat list \<Rightarrow> face \<Rightarrow> best \<Rightarrow> error + best" where
  "face_step weight_corr not_in_arr ind b =
     (if \<not> (list_all (\<lambda>f. f < length weight_corr) ind \<and>
             list_all (\<lambda>f. list_all (\<lambda>n. n < length (weight_corr ! f)) not_in_arr) ind)
      then Inl IndexError
      else
        let most_related =
              map (\<lambda>n. sum_list (map (\<lambda>f. weight_corr ! f ! n) ind)) not_in_arr;
            ind_2 = rev (argsort most_related)
        in case ind_2 of
             [] \<Rightarrow> Inl IndexError
           | k # ks \<Rightarrow>
               let curr_corr = most_related ! k
               in if curr_corr > fst b
                  then Inr (curr_corr, Some (not_in_arr ! k), Some ind)
                  else Inr b)"

fun faces_loop :: "matrix \<Rightarrow> nat list \<Rightarrow> face list \<Rightarrow> best \<Rightarrow> error + best" where
  "faces_loop weight_corr not_in_arr [] b = Inr b"
| "faces_loop weight_corr not_in_arr (ind # rest) b =
     (case face_step weight_corr not_in_arr ind b of
        Inl e \<Rightarrow> Inl e
      | Inr b' \<Rightarrow> faces_loop weight_corr not_in_arr rest b')"

text \<open>
  The body of \<open>while len(not_in) > 0\<close>, without the jump back: the placed nodes, the
  nodes still to place, the faces and the graph after the insertion.
  \<open>set(max_i)\<close> raises TypeError when \<open>max_i\<close> is still the integer \<open>-1\<close>.
\<close>

definition tmfg_body ::
  "matrix \<Rightarrow> matrix \<Rightarrow> nat list \<Rightarrow> nat list \<Rightarrow> face list \<Rightarrow> graph \<Rightarrow>
     error + (nat list \<times> nat list \<times> face list \<times> graph)" where
  "tmfg_body corr weight_corr starters_set not_in faces G =
     (case faces_loop weight_corr not_in faces (- 1, None, None) of
        Inl e \<Rightarrow> Inl e
      | Inr (max_corr, None, ncw) \<Rightarrow> Inl TypeError
      | Inr (max_corr, Some max_i, None) \<Rightarrow> Inl TypeError
      | Inr (max_corr, Some max_i, Some nodes_correlated_with) \<Rightarrow>
          (let starters_set' = List.insert max_i starters_set;
               not_in' = filter (\<lambda>x. x \<notin> set starters_set') not_in
           in case add_triangular_face G (Scalar max_i) nodes_correlated_with corr faces of
                Inl e \<Rightarrow> Inl e
              | Inr G' \<Rightarrow>
                  (case calculate_new_faces faces max_i nodes_correlated_with of
                     Inl e \<Rightarrow> Inl e
                   | Inr faces' \<Rightarrow> Inr (starters_set', not_in', faces', G'))))"

lemma argsort_set: "set (argsort xs) = {..<length xs}"
  by (auto simp: argsort_def)

lemma argsort_length: "length (argsort xs) = length xs"
  by (simp add: argsort_def)

lemma argsort_distinct: "distinct (argsort xs)"
  by (simp add: argsort_def)

lemma face_step_member:
  assumes "face_step W ns f b = Inr (m, Some i, x)"
    and "\<And>j. fst (snd b) = Some j \<Longrightarrow> j \<in> set ns"
  shows "i \<in> set ns"
proof (cases "rev (argsort (map (\<lambda>n. sum_list (map (\<lambda>f. W ! f ! n) f)) ns))")
  case Nil
  with assms(1) show ?thesis
    by (simp add: face_step_def split: if_splits)
next
  case (Cons k ks)
  then have "k \<in> set (argsort (map (\<lambda>n. sum_list (map (\<lambda>f. W ! f ! n) f)) ns))"
    by (metis list.set_intros(1) set_rev)
  then have k: "k < length ns"
    by (simp add: argsort_set)
  show ?thesis
  proof (cases "map (\<lambda>n. sum_list (map (\<lambda>f. W ! f ! n) f)) ns ! k > fst b")
    case True
    with assms(1) Cons have "i = ns ! k"
      by (simp add: face_step_def Let_def split: if_splits)
    with k show ?thesis by simp
  next
    case False
    with assms(1) Cons have "b = (m, Some i, x)"
      by (simp add: face_step_def Let_def split: if_splits)
    with assms(2) show ?thesis by simp
  qed
qed

lemma faces_loop_member:
  "faces_loop W ns fs b = Inr (m, Some i, x) \<Longrightarrow>
   (\<And>j. fst (snd b) = Some j \<Longrightarrow> j \<in> set ns) \<Longrightarrow> i \<in> set ns"
proof (induction fs arbitrary: b)
  case Nil
  then show ?case by simp
next
  case (Cons f fs)
  from Cons.prems(1) obtain b' where
    st: "face_step W ns f b = Inr b'" and lp: "faces_loop W ns fs b' = Inr (m, Some i, x)"
    by (auto split: sum.splits)
  have "\<And>j. fst (snd b') = Some j \<Longrightarrow> j \<in> set ns"
  proof -
    fix j assume "fst (snd b') = Some j"
    then obtain m' x' where "b' = (m', Some j, x')"
      by (cases b') auto
    with st Cons.prems(2) show "j \<in> set ns"
      using face_step_member by blast
  qed
  with Cons.IH lp show ?case by blast
qed

lemma tmfg_body_decreases:
  assumes "tmfg_body corr W st ns fs G = Inr (st', ns', fs', G')"
  shows "length ns' < length ns"
proof -
  from assms obtain m i x where
    lp: "faces_loop W ns fs (- 1, None, None) = Inr (m, Some i, x)"
    and ns': "ns' = filter (\<lambda>x. x \<notin> set (List.insert i st)) ns"
    by (auto simp: tmfg_body_def Let_def split: sum.splits option.splits)
  from lp have "i \<in> set ns"
    by (rule faces_loop_member) simp
  then have "length (filter (\<lambda>x. x \<notin> set (List.insert i st)) ns) < length ns"
    by (intro length_filter_less[of i]) auto
  with ns' show ?thesis by simp
qed

function tmfg_loop ::
  "matrix \<Rightarrow> matrix \<Rightarrow> nat list \<Rightarrow> nat list \<Rightarrow> face list \<Rightarrow> graph \<Rightarrow> error + graph" where
  "tmfg_loop corr weight_corr starters_set not_in faces G =
     (if length not_in > 0
      then (case tmfg_body corr weight_corr starters_set not_in faces G of
              Inl e \<Rightarrow> Inl e
            | Inr (starters_set', not_in', faces', G') \<Rightarrow>
                tmfg_loop corr weight_corr starters_set' not_in' faces' G')
      else Inr G)"
  by pat_completeness auto
termination
  by (relation "measure (\<lambda>(corr, W, st, ns, fs, G). length ns)")
     (auto dest: tmfg_body_decreases)

declare tmfg_loop.simps [simp del]

text \<open>
  \<open>tmfg(corr, absolute)\<close>. The seed tetrahedron reads \<open>ind[0]\<close> to \<open>ind[3]\<close>; the
  arguments of the first call are evaluated before anything is added, so with fewer than
  four entries the IndexError comes first.
\<close>

definition tmfg :: "matrix \<Rightarrow> bool \<Rightarrow> error + graph" where
  "tmfg corr absolute =
     (let p = length corr;
          weight_corr = (if absolute then map (map abs) corr else corr);
          degree_centrality = column_sums weight_corr;
          ind = rev (argsort degree_centrality);
          starters_set = remdups (take 4 ind);
          not_in = filter (\<lambda>x. x \<notin> set starters_set) [0..<p];
          G = add_nodes_from empty_graph [0..<p];
          faces = []
      in if length ind < 4 then Inl IndexError
         else
           (case add_triangular_face G (Scalar (ind ! 0)) (remdups [ind ! 1, ind ! 3]) corr faces of
             Inl e \<Rightarrow> Inl e
           | Inr G1 \<Rightarrow>
           (case add_triangular_face G1 (Scalar (ind ! 1)) (remdups [ind ! 2, ind ! 3]) corr faces of
             Inl e \<Rightarrow> Inl e
           | Inr G2 \<Rightarrow>
           (case add_triangular_face G2 (Scalar (ind ! 0)) (remdups [ind ! 2, ind ! 3]) corr faces of
             Inl e \<Rightarrow> Inl e
           | Inr G3 \<Rightarrow>
           (case add_triangular_face G3 (Scalar (ind ! 2)) (remdups [ind ! 1, ind ! 3]) corr faces of
             Inl e \<Rightarrow> Inl e
           | Inr G4 \<Rightarrow>
               (let faces1 = faces_add faces (frozenset [ind ! 0, ind ! 1, ind ! 3]);
                    faces2 = faces_add faces1 (frozenset [ind ! 1, ind ! 2, ind ! 3]);
                    faces3 = faces_add faces2 (frozenset [ind ! 0, ind ! 2, ind ! 3]);
                    faces4 = faces_add faces3 (frozenset [ind ! 0, ind ! 1, ind ! 2])
                in tmfg_loop corr weight_corr starters_set not_in faces4 G4))))))"


section \<open>The PMFG builder\<close>

text \<open>
  \<open>np.unravel_index(v, (p, p))\<close>: row and column of the flat index \<open>v\<close>; ValueError
  outside the \<open>p * p\<close> entries.
\<close>

definition unravel_index :: "nat \<Rightarrow> nat \<Rightarrow> error + (nat \<times> nat)" where
  "unravel_index v p = (if v < p * p then Inr (v div p, v mod p) else Inl ValueError)"

text \<open>
  \<open>nx.check_planarity\<close> is the planarity test of the graph collaborator. It is a
  parameter of the builder: a predicate \<open>is_planar\<close> on the nodes and the unweighted
  edges of a graph.
\<close>

type_synonym planarity_test = "nat list \<Rightarrow> (nat \<times> nat) list \<Rightarrow> bool"

definition check_planarity :: "planarity_test \<Rightarrow> graph \<Rightarrow> bool" where
  "check_planarity is_planar G = is_planar (nodes G) (map fst (edges G))"

text \<open>One pass of \<open>for v in vals\<close>; the flag says whether the loop breaks after it.\<close>

definition pmfg_step ::
  "planarity_test \<Rightarrow> matrix \<Rightarrow> nat \<Rightarrow> nat \<Rightarrow> graph \<Rightarrow> error + (graph \<times> bool)" where
  "pmfg_step is_planar corr p v G =
     (case unravel_index v p of
        Inl e \<Rightarrow> Inl e
      | Inr (idx_i, idx_j) \<Rightarrow>
          if idx_i = idx_j then Inr (G, False)
          else (case getitem2 corr idx_i idx_j of
                  Inl e \<Rightarrow> Inl e
                | Inr w \<Rightarrow>
                    (let G1 = add_edge G idx_i idx_j w;
                         G2 = (if \<not> check_planarity is_planar G1
                               then remove_edge G1 idx_i idx_j else G1)
                     in Inr (G2, int (number_of_edges G2) = 3 * (int p - 2)))))"

fun pmfg_loop ::
  "planarity_test \<Rightarrow> matrix \<Rightarrow> nat \<Rightarrow> nat list \<Rightarrow> graph \<Rightarrow> error + graph" where
  "pmfg_loop is_planar corr p [] G = Inr G"
| "pmfg_loop is_planar corr p (v # vals) G =
     (case pmfg_step is_planar corr p v G of
        Inl e \<Rightarrow> Inl e
      | Inr (G', stop) \<Rightarrow> if stop then Inr G' else pmfg_loop is_planar corr p vals G')"

definition pmfg :: "planarity_test \<Rightarrow> matrix \<Rightarrow> error + graph" where
  "pmfg is_planar corr =
     (let vals = rev (argsort (concat corr));
          p = length corr
      in pmfg_loop is_planar corr p vals (add_nodes_from empty_graph [0..<p]))"

section \<open>The spanning tree builder\<close>

text \<open>
  The components are a Python list of sets. \<open>_merge_components\<close> scans the list once
  and keeps the last component that holds \<open>i\<close> and the last that holds \<open>j\<close>; a node
  found in none leaves \<open>None\<close>, and \<open>c1 |= c2\<close> then raises TypeError.
\<close>

fun in_same_component :: "nat set list \<Rightarrow> nat \<Rightarrow> nat \<Rightarrow> bool" where
  "in_same_component [] i j = False"
| "in_same_component (c # components) i j =
     (if i \<in> c \<and> j \<in> c then True else in_same_component components i j)"

fun scan_components ::
  "nat set list \<Rightarrow> nat \<Rightarrow> nat \<Rightarrow> nat \<Rightarrow> nat option \<times> nat option \<Rightarrow> nat option \<times> nat option" where
  "scan_components [] idx i j r = r"
| "scan_components (c # components) idx i j (c1_i, c2_i) =
     scan_components components (Suc idx) i j
       (if i \<in> c then Some idx else c1_i, if j \<in> c then Some idx else c2_i)"

definition merge_components :: "nat set list \<Rightarrow> nat \<Rightarrow> nat \<Rightarrow> error + nat set list" where
  "merge_components components i j =
     (case scan_components components 0 i j (None, None) of
        (None, c2_i) \<Rightarrow> Inl TypeError
      | (Some c1_i, None) \<Rightarrow> Inl TypeError
      | (Some c1_i, Some c2_i) \<Rightarrow>
          (let merged = components[c1_i := components ! c1_i \<union> components ! c2_i]
           in Inr (take c2_i merged @ drop (Suc c2_i) merged)))"

fun mst_loop ::
  "matrix \<Rightarrow> nat \<Rightarrow> nat list \<Rightarrow> nat set list \<Rightarrow> graph \<Rightarrow> error + graph" where
  "mst_loop corr p [] components mst_G = Inr mst_G"
| "mst_loop corr p (v # vals) components mst_G =
     (case unravel_index v p of
        Inl e \<Rightarrow> Inl e
      | Inr (idx_i, idx_j) \<Rightarrow>
          if idx_i = idx_j then mst_loop corr p vals components mst_G
          else if in_same_component components idx_i idx_j
          then mst_loop corr p vals components mst_G
          else (case getitem2 corr idx_i idx_j of
                  Inl e \<Rightarrow> Inl e
                | Inr w \<Rightarrow>
                    (let G' = add_edge mst_G idx_i idx_j w
                     in case merge_components components idx_i idx_j of
                          Inl e \<Rightarrow> Inl e
                        | Inr components' \<Rightarrow>
                            if int (number_of_edges G') = int p - 1 then Inr G'
                            else mst_loop corr p vals components' G')))"

definition mst :: "matrix \<Rightarrow> error + graph" where
  "mst corr =
     (let p = length corr;
          vals = rev (argsort (concat corr));
          components = map (\<lambda>x. {x}) [0..<p]
      in mst_loop corr p vals components empty_graph)"

section \<open>The k-NN builder\<close>

text \<open>\<open>corr[:, i]\<close>: column \<open>i\<close>; IndexError when the matrix has no such column.\<close>

definition column :: "matrix \<Rightarrow> nat \<Rightarrow> error + real list" where
  "column C i =
     (if list_all (\<lambda>row. i < length row) C then Inr (map (\<lambda>row. row ! i) C)
      else Inl IndexError)"

fun knn_inner :: "matrix \<Rightarrow> int \<Rightarrow> nat \<Rightarrow> nat list \<Rightarrow> int \<Rightarrow> graph \<Rightarrow> error + graph" where
  "knn_inner corr k i [] num G = Inr G"
| "knn_inner corr k i (j # js) num G =
     (if num = k then Inr G
      else if j = i then knn_inner corr k i js num G
      else (case getitem2 corr i j of
              Inl e \<Rightarrow> Inl e
            | Inr w \<Rightarrow> knn_inner corr k i js (num + 1) (add_edge G i j w)))"

fun knn_outer :: "matrix \<Rightarrow> int \<Rightarrow> nat list \<Rightarrow> graph \<Rightarrow> error + graph" where
  "knn_outer corr k [] G = Inr G"
| "knn_outer corr k (i # rest) G =
     (case column corr i of
        Inl e \<Rightarrow> Inl e
      | Inr edges' \<Rightarrow>
          (case knn_inner corr k i (rev (argsort edges')) 0 G of
             Inl e \<Rightarrow> Inl e
           | Inr G' \<Rightarrow> knn_outer corr k rest G'))"

definition knn :: "matrix \<Rightarrow> int \<Rightarrow> error + graph" where
  "knn corr k = knn_outer corr k [0..<length corr] empty_graph"

section \<open>The matrix transforms\<close>

text \<open>
  The transforms assign to array elements in place, so they are modelled on a store:
  the two-dimensional and the three-dimensional arrays that exist, each under its
  index. A Python variable bound to an array is a reference into the store; allocation
  appends. References are assumed to be live (below the length of the store).
\<close>

type_synonym tensor = "real list list list"

record heap =
  arrays2 :: "matrix list"
  arrays3 :: "tensor list"

type_synonym ref = nat

definition alloc2 :: "heap \<Rightarrow> matrix \<Rightarrow> ref \<times> heap" where
  "alloc2 h M = (length (arrays2 h), h\<lparr>arrays2 := arrays2 h @ [M]\<rparr>)"

definition alloc3 :: "heap \<Rightarrow> tensor \<Rightarrow> ref \<times> heap" where
  "alloc3 h T = (length (arrays3 h), h\<lparr>arrays3 := arrays3 h @ [T]\<rparr>)"

definition zeros2 :: "nat \<Rightarrow> nat \<Rightarrow> matrix" where
  "zeros2 p q = replicate p (replicate q 0)"

definition zeros3 :: "nat \<Rightarrow> nat \<Rightarrow> nat \<Rightarrow> tensor" where
  "zeros3 p q r = replicate p (replicate q (replicate r 0))"

text \<open>\<open>a[i, j] = v\<close> and \<open>a[i, j, k] = v\<close>, in place.\<close>

definition setitem2 :: "heap \<Rightarrow> ref \<Rightarrow> nat \<Rightarrow> nat \<Rightarrow> real \<Rightarrow> error + heap" where
  "setitem2 h a i j v =
     (let M = arrays2 h ! a
      in if i < length M \<and> j < length (M ! i)
         then Inr (h\<lparr>arrays2 := (arrays2 h)[a := M[i := (M ! i)[j := v]]]\<rparr>)
         else Inl IndexError)"

definition setitem3 :: "heap \<Rightarrow> ref \<Rightarrow> nat \<Rightarrow> nat \<Rightarrow> nat \<Rightarrow> real \<Rightarrow> error + heap" where
  "setitem3 h a i j k v =
     (let T = arrays3 h ! a
      in if i < length T \<and> j < length (T ! i) \<and> k < length (T ! i ! j)
         then Inr (h\<lparr>arrays3 := (arrays3 h)[a := T[i := (T ! i)[j := (T ! i ! j)[k := v]]]]\<rparr>)
         else Inl IndexError)"

text \<open>\<open>a[mask(a)] = v\<close>: every element that satisfies the mask is overwritten in place.\<close>

definition setitem_mask :: "heap \<Rightarrow> ref \<Rightarrow> (real \<Rightarrow> bool) \<Rightarrow> real \<Rightarrow> heap" where
  "setitem_mask h a sel v =
     h\<lparr>arrays2 := (arrays2 h)[a := map (map (\<lambda>x. if sel x then v else x)) (arrays2 h ! a)]\<rparr>"

text \<open>\<open>np.fill_diagonal(a, v)\<close>, in place.\<close>

definition fill_diagonal :: "heap \<Rightarrow> ref \<Rightarrow> real \<Rightarrow> heap" where
  "fill_diagonal h a v =
     h\<lparr>arrays2 := (arrays2 h)[a := map (\<lambda>(i, row). row[i := v]) (enumerate 0 (arrays2 h ! a))]\<rparr>"

text \<open>A \<open>for\<close> loop without \<open>break\<close> over a state, stopped by the first exception.\<close>

fun for_each :: "'a list \<Rightarrow> ('a \<Rightarrow> 's \<Rightarrow> error + 's) \<Rightarrow> 's \<Rightarrow> error + 's" where
  "for_each [] body s = Inr s"
| "for_each (x # xs) body s =
     (case body x s of Inl e \<Rightarrow> Inl e | Inr s' \<Rightarrow> for_each xs body s')"

subsection \<open>Thresholding\<close>

definition threshold :: "heap \<Rightarrow> ref \<Rightarrow> real \<Rightarrow> bool \<Rightarrow> bool \<Rightarrow> ref \<times> heap" where
  "threshold h corr t binary absolute =
     (let (corr', h1) = alloc2 h (arrays2 h ! corr);
          h2 = (if absolute then setitem_mask h1 corr' (\<lambda>x. \<bar>x\<bar> < t) 0
                else setitem_mask h1 corr' (\<lambda>x. x < t) 0);
          h3 = (if binary then setitem_mask h2 corr' (\<lambda>x. \<bar>x\<bar> > 0) 1 else h2)
      in (corr', h3))"

subsection \<open>Partial correlation\<close>

text \<open>
  \<open>np.linalg.inv\<close> belongs to the linear-algebra collaborator: a parameter \<open>linalg_inv\<close> that
  returns the inverse or raises LinAlgError (the spec's SingularMatrixError). Its
  result is a new array.
\<close>

type_synonym inverter = "matrix \<Rightarrow> error + matrix"

text \<open>
  Off the diagonal, where \<open>prec[i, i] * prec[j, j]\<close> is not positive, the program
  stores NaN or an infinity and the model the value of the total operations of the
  reals; \<open>np.fill_diagonal\<close> overwrites the diagonal in both. No property below reads
  an entry of the result off the diagonal.
\<close>

definition partial_correlation :: "inverter \<Rightarrow> heap \<Rightarrow> ref \<Rightarrow> error + (ref \<times> heap)" where
  "partial_correlation linalg_inv h corr =
     (let p = length (arrays2 h ! corr)
      in case linalg_inv (arrays2 h ! corr) of
           Inl e \<Rightarrow> Inl e
         | Inr P \<Rightarrow>
             (let (prec, h1) = alloc2 h P;
                  (pc, h2) = alloc2 h1 (zeros2 p p)
              in case for_each [0..<p] (\<lambda>i. for_each [0..<p] (\<lambda>j h.
                        case getitem2 (arrays2 h ! prec) i j of Inl e \<Rightarrow> Inl e | Inr pij \<Rightarrow>
                        (case getitem2 (arrays2 h ! prec) i i of Inl e \<Rightarrow> Inl e | Inr pii \<Rightarrow>
                        (case getitem2 (arrays2 h ! prec) j j of Inl e \<Rightarrow> Inl e | Inr pjj \<Rightarrow>
                           setitem2 h pc i j (- pij / sqrt (pii * pjj)))))) h2 of
                   Inl e \<Rightarrow> Inl e
                 | Inr h3 \<Rightarrow> Inr (pc, fill_diagonal h3 pc 1)))"

subsection \<open>Dependency network\<close>

text \<open>
  \<open>np.sqrt(dem)\<close> is NaN for a negative \<open>dem\<close>, and the division by
  \<open>np.sqrt(0)\<close> is an infinity or NaN: in both cases the outcome is \<open>NotFinite\<close>.
  For a positive \<open>dem\<close> the root and the quotient are those of the reals.
\<close>

definition calculate_partial_correlation ::
  "matrix \<Rightarrow> nat \<Rightarrow> nat \<Rightarrow> nat \<Rightarrow> error + real" where
  "calculate_partial_correlation corr i j k =
     (case getitem2 corr i k of Inl e \<Rightarrow> Inl e | Inr cik \<Rightarrow>
     (case getitem2 corr k j of Inl e \<Rightarrow> Inl e | Inr ckj \<Rightarrow>
        (let dem = (1 - cik\<^sup>2) * (1 - ckj\<^sup>2)
         in case getitem2 corr i j of Inl e \<Rightarrow> Inl e | Inr cij \<Rightarrow>
              if dem \<le> 0 then Inl NotFinite
              else Inr ((cij - cik * ckj) / sqrt dem))))"

text \<open>
  \<open>D[i, i != ind, k]\<close>: the entries \<open>D[i, j, k]\<close> that the mask selects; IndexError unless
  the indices are inside the array and the mask is as long as the second axis.
\<close>

definition getitem_masked :: "tensor \<Rightarrow> nat \<Rightarrow> bool list \<Rightarrow> nat \<Rightarrow> error + real list" where
  "getitem_masked T i sel k =
     (if i < length T \<and> length sel = length (T ! i) \<and> list_all (\<lambda>row. k < length row) (T ! i)
      then Inr (map (\<lambda>j. T ! i ! j ! k) (filter (\<lambda>j. sel ! j) [0..<length sel]))
      else Inl IndexError)"

text \<open>
  \<open>dependency_network(corr)\<close>, followed to its result, to the statement that raises,
  or to the first value that is not a real number.
\<close>

definition dependency_network :: "heap \<Rightarrow> ref \<Rightarrow> error + (ref \<times> heap)" where
  "dependency_network h corr =
     (let p = length (arrays2 h ! corr);
          ind = [0..<p];
          (D, h1) = alloc3 h (zeros3 p p p)
      in case for_each [0..<p] (\<lambda>i. for_each [0..<p] (\<lambda>j. for_each [0..<p] (\<lambda>k h.
                if i = j \<or> i = k \<or> j = k then Inr h
                else (case getitem2 (arrays2 h ! corr) i j of Inl e \<Rightarrow> Inl e | Inr cij \<Rightarrow>
                     (case calculate_partial_correlation (arrays2 h ! corr) i j k of
                        Inl e \<Rightarrow> Inl e
                      | Inr pc \<Rightarrow> setitem3 h D i j k (cij - pc)))))) h1 of
           Inl e \<Rightarrow> Inl e
         | Inr h2 \<Rightarrow>
        (case for_each [0..<p] (\<lambda>i. for_each [0..<p] (\<lambda>j h. setitem3 h D i j j 1)) h2 of
           Inl e \<Rightarrow> Inl e
         | Inr h3 \<Rightarrow>
             (let (dependency_network, h4) = alloc2 h3 (zeros2 p p)
              in case for_each [0..<p] (\<lambda>i. for_each [0..<p] (\<lambda>k h.
                        if i = k then Inr h
                        else (case getitem_masked (arrays3 h ! D) i (map (\<lambda>x. i \<noteq> x) ind) k of
                                Inl e \<Rightarrow> Inl e
                              | Inr xs \<Rightarrow>
                                  setitem2 h dependency_network k i
                                    (sum_list xs / (real p - 1))))) h4 of
                   Inl e \<Rightarrow> Inl e
                 | Inr h5 \<Rightarrow> Inr (dependency_network, h5))))"

section \<open>The operations on the store\<close>

text \<open>
  What a call does to the arrays of its caller. An operation takes a reference to the
  caller's array and the store, and ends with its result or its exception together
  with the store at that moment, so that the arrays can be inspected after a call that
  raises as well. Every statement that reads an array reads it through the store at
  the moment of the read. A second name for an array (\<open>weight_corr = corr\<close> in
  \<open>tmfg\<close>) is the same reference; a view (\<open>corr[:, i]\<close> in \<open>knn\<close>) is read through the
  reference of its base; an array-valued expression that numpy evaluates to a new
  two-dimensional array (\<open>np.abs(corr)\<close>) is allocated. The one-dimensional arrays of
  the builders (the column sums, the results of \<open>argsort\<close>, the flattened copy, the
  sums over a face) are never assigned to through an index, and the graph belongs to
  the call that builds it; they are values. The suffix \<open>st\<close> marks the version of a
  function on the store.
\<close>

type_synonym 'a outcome = "(error + 'a) \<times> heap"

subsection \<open>TMFG\<close>

fun add_face_edges_st :: "graph \<Rightarrow> nat \<Rightarrow> nat list \<Rightarrow> ref \<Rightarrow> heap \<Rightarrow> graph outcome" where
  "add_face_edges_st G new [] C h = (Inr G, h)"
| "add_face_edges_st G new (j # js) C h =
     (case getitem2 (arrays2 h ! C) new j of
        Inl e \<Rightarrow> (Inl e, h)
      | Inr w \<Rightarrow> add_face_edges_st (add_edge G new j w) new js C h)"

fun add_triangular_face_st ::
  "graph \<Rightarrow> node_arg \<Rightarrow> nat list \<Rightarrow> ref \<Rightarrow> face list \<Rightarrow> heap \<Rightarrow> graph outcome" where
  "add_triangular_face_st G (Sized xs) old_set C faces h = (Inl ValueError, h)"
| "add_triangular_face_st G (Scalar new) old_set C faces h =
     (if length old_set > 3 then (Inl ValueError, h)
      else add_face_edges_st G new old_set C h)"

text \<open>
  \<open>weight_corr[ind_arr, :][:, not_in_arr]\<close> copies the selected entries out of the
  array behind \<open>weight_corr\<close>, as it is when the face is examined.
\<close>

fun faces_loop_st :: "ref \<Rightarrow> nat list \<Rightarrow> face list \<Rightarrow> best \<Rightarrow> heap \<Rightarrow> best outcome" where
  "faces_loop_st weight_corr not_in_arr [] b h = (Inr b, h)"
| "faces_loop_st weight_corr not_in_arr (ind # rest) b h =
     (case face_step (arrays2 h ! weight_corr) not_in_arr ind b of
        Inl e \<Rightarrow> (Inl e, h)
      | Inr b' \<Rightarrow> faces_loop_st weight_corr not_in_arr rest b' h)"

definition tmfg_body_st ::
  "ref \<Rightarrow> ref \<Rightarrow> nat list \<Rightarrow> nat list \<Rightarrow> face list \<Rightarrow> graph \<Rightarrow> heap \<Rightarrow>
     (nat list \<times> nat list \<times> face list \<times> graph) outcome" where
  "tmfg_body_st corr weight_corr starters_set not_in faces G h =
     (case faces_loop_st weight_corr not_in faces (- 1, None, None) h of
        (Inl e, h1) \<Rightarrow> (Inl e, h1)
      | (Inr (max_corr, None, ncw), h1) \<Rightarrow> (Inl TypeError, h1)
      | (Inr (max_corr, Some max_i, None), h1) \<Rightarrow> (Inl TypeError, h1)
      | (Inr (max_corr, Some max_i, Some nodes_correlated_with), h1) \<Rightarrow>
          (let starters_set' = List.insert max_i starters_set;
               not_in' = filter (\<lambda>x. x \<notin> set starters_set') not_in
           in case add_triangular_face_st G (Scalar max_i) nodes_correlated_with corr faces h1 of
                (Inl e, h2) \<Rightarrow> (Inl e, h2)
              | (Inr G', h2) \<Rightarrow>
                  (case calculate_new_faces faces max_i nodes_correlated_with of
                     Inl e \<Rightarrow> (Inl e, h2)
                   | Inr faces' \<Rightarrow> (Inr (starters_set', not_in', faces', G'), h2))))"

lemma add_face_edges_st_eq:
  "add_face_edges_st G new js C h = (add_face_edges G new js (arrays2 h ! C), h)"
  by (induction js arbitrary: G) (simp_all split: sum.splits)

lemma add_triangular_face_st_eq:
  "add_triangular_face_st G new old_set C faces h
     = (add_triangular_face G new old_set (arrays2 h ! C) faces, h)"
  by (cases new) (simp_all add: add_face_edges_st_eq)

lemma faces_loop_st_eq:
  "faces_loop_st W ns fs b h = (faces_loop (arrays2 h ! W) ns fs b, h)"
  by (induction fs arbitrary: b) (simp_all split: sum.splits)

lemma tmfg_body_st_eq:
  "tmfg_body_st corr W st ns fs G h
     = (tmfg_body (arrays2 h ! corr) (arrays2 h ! W) st ns fs G, h)"
  by (simp add: tmfg_body_st_def tmfg_body_def faces_loop_st_eq add_triangular_face_st_eq Let_def
      split: sum.splits option.splits prod.splits)

function tmfg_loop_st ::
  "ref \<Rightarrow> ref \<Rightarrow> nat list \<Rightarrow> nat list \<Rightarrow> face list \<Rightarrow> graph \<Rightarrow> heap \<Rightarrow> graph outcome" where
  "tmfg_loop_st corr weight_corr starters_set not_in faces G h =
     (if length not_in > 0
      then (case tmfg_body_st corr weight_corr starters_set not_in faces G h of
              (Inl e, h') \<Rightarrow> (Inl e, h')
            | (Inr (starters_set', not_in', faces', G'), h') \<Rightarrow>
                tmfg_loop_st corr weight_corr starters_set' not_in' faces' G' h')
      else (Inr G, h))"
  by pat_completeness auto
termination
  by (relation "measure (\<lambda>(corr, W, st, ns, fs, G, h). length ns)")
     (auto simp: tmfg_body_st_eq dest: tmfg_body_decreases[OF sym])

declare tmfg_loop_st.simps [simp del]

definition tmfg_st :: "ref \<Rightarrow> bool \<Rightarrow> heap \<Rightarrow> graph outcome" where
  "tmfg_st corr absolute h =
     (let p = length (arrays2 h ! corr);
          (weight_corr, h0) =
             (if absolute then alloc2 h (map (map abs) (arrays2 h ! corr)) else (corr, h));
          degree_centrality = column_sums (arrays2 h0 ! weight_corr);
          ind = rev (argsort degree_centrality);
          starters_set = remdups (take 4 ind);
          not_in = filter (\<lambda>x. x \<notin> set starters_set) [0..<p];
          G = add_nodes_from empty_graph [0..<p];
          faces = []
      in if length ind < 4 then (Inl IndexError, h0)
         else
           (case add_triangular_face_st G (Scalar (ind ! 0)) (remdups [ind ! 1, ind ! 3])
                   corr faces h0 of
             (Inl e, h1) \<Rightarrow> (Inl e, h1)
           | (Inr G1, h1) \<Rightarrow>
           (case add_triangular_face_st G1 (Scalar (ind ! 1)) (remdups [ind ! 2, ind ! 3])
                   corr faces h1 of
             (Inl e, h2) \<Rightarrow> (Inl e, h2)
           | (Inr G2, h2) \<Rightarrow>
           (case add_triangular_face_st G2 (Scalar (ind ! 0)) (remdups [ind ! 2, ind ! 3])
                   corr faces h2 of
             (Inl e, h3) \<Rightarrow> (Inl e, h3)
           | (Inr G3, h3) \<Rightarrow>
           (case add_triangular_face_st G3 (Scalar (ind ! 2)) (remdups [ind ! 1, ind ! 3])
                   corr faces h3 of
             (Inl e, h4) \<Rightarrow> (Inl e, h4)
           | (Inr G4, h4) \<Rightarrow>
               (let faces1 = faces_add faces (frozenset [ind ! 0, ind ! 1, ind ! 3]);
                    faces2 = faces_add faces1 (frozenset [ind ! 1, ind ! 2, ind ! 3]);
                    faces3 = faces_add faces2 (frozenset [ind ! 0, ind ! 2, ind ! 3]);
                    faces4 = faces_add faces3 (frozenset [ind ! 0, ind ! 1, ind ! 2])
                in tmfg_loop_st corr weight_corr starters_set not_in faces4 G4 h4))))))"

subsection \<open>PMFG\<close>

definition pmfg_step_st ::
  "planarity_test \<Rightarrow> ref \<Rightarrow> nat \<Rightarrow> nat \<Rightarrow> graph \<Rightarrow> heap \<Rightarrow> (graph \<times> bool) outcome" where
  "pmfg_step_st is_planar corr p v G h =
     (case unravel_index v p of
        Inl e \<Rightarrow> (Inl e, h)
      | Inr (idx_i, idx_j) \<Rightarrow>
          if idx_i = idx_j then (Inr (G, False), h)
          else (case getitem2 (arrays2 h ! corr) idx_i idx_j of
                  Inl e \<Rightarrow> (Inl e, h)
                | Inr w \<Rightarrow>
                    (let G1 = add_edge G idx_i idx_j w;
                         G2 = (if \<not> check_planarity is_planar G1
                               then remove_edge G1 idx_i idx_j else G1)
                     in (Inr (G2, int (number_of_edges G2) = 3 * (int p - 2)), h))))"

fun pmfg_loop_st ::
  "planarity_test \<Rightarrow> ref \<Rightarrow> nat \<Rightarrow> nat list \<Rightarrow> graph \<Rightarrow> heap \<Rightarrow> graph outcome" where
  "pmfg_loop_st is_planar corr p [] G h = (Inr G, h)"
| "pmfg_loop_st is_planar corr p (v # vals) G h =
     (case pmfg_step_st is_planar corr p v G h of
        (Inl e, h') \<Rightarrow> (Inl e, h')
      | (Inr (G', stop), h') \<Rightarrow>
          if stop then (Inr G', h') else pmfg_loop_st is_planar corr p vals G' h')"

definition pmfg_st :: "planarity_test \<Rightarrow> ref \<Rightarrow> heap \<Rightarrow> graph outcome" where
  "pmfg_st is_planar corr h =
     (let vals = rev (argsort (concat (arrays2 h ! corr)));
          p = length (arrays2 h ! corr)
      in pmfg_loop_st is_planar corr p vals (add_nodes_from empty_graph [0..<p]) h)"

subsection \<open>Spanning tree\<close>

fun mst_loop_st ::
  "ref \<Rightarrow> nat \<Rightarrow> nat list \<Rightarrow> nat set list \<Rightarrow> graph \<Rightarrow> heap \<Rightarrow> graph outcome" where
  "mst_loop_st corr p [] components mst_G h = (Inr mst_G, h)"
| "mst_loop_st corr p (v # vals) components mst_G h =
     (case unravel_index v p of
        Inl e \<Rightarrow> (Inl e, h)
      | Inr (idx_i, idx_j) \<Rightarrow>
          if idx_i = idx_j then mst_loop_st corr p vals components mst_G h
          else if in_same_component components idx_i idx_j
          then mst_loop_st corr p vals components mst_G h
          else (case getitem2 (arrays2 h ! corr) idx_i idx_j of
                  Inl e \<Rightarrow> (Inl e, h)
                | Inr w \<Rightarrow>
                    (let G' = add_edge mst_G idx_i idx_j w
                     in case merge_components components idx_i idx_j of
                          Inl e \<Rightarrow> (Inl e, h)
                        | Inr components' \<Rightarrow>
                            if int (number_of_edges G') = int p - 1 then (Inr G', h)
                            else mst_loop_st corr p vals components' G' h)))"

definition mst_st :: "ref \<Rightarrow> heap \<Rightarrow> graph outcome" where
  "mst_st corr h =
     (let p = length (arrays2 h ! corr);
          vals = rev (argsort (concat (arrays2 h ! corr)));
          components = map (\<lambda>x. {x}) [0..<p]
      in mst_loop_st corr p vals components empty_graph h)"

subsection \<open>k-NN\<close>

text \<open>
  \<open>edges = corr[:, i]\<close> is a view of column \<open>i\<close> of the caller's array; \<open>argsort\<close>
  reads it through the store and returns a new array of indices.
\<close>

fun knn_inner_st :: "ref \<Rightarrow> int \<Rightarrow> nat \<Rightarrow> nat list \<Rightarrow> int \<Rightarrow> graph \<Rightarrow> heap \<Rightarrow> graph outcome" where
  "knn_inner_st corr k i [] num G h = (Inr G, h)"
| "knn_inner_st corr k i (j # js) num G h =
     (if num = k then (Inr G, h)
      else if j = i then knn_inner_st corr k i js num G h
      else (case getitem2 (arrays2 h ! corr) i j of
              Inl e \<Rightarrow> (Inl e, h)
            | Inr w \<Rightarrow> knn_inner_st corr k i js (num + 1) (add_edge G i j w) h))"

fun knn_outer_st :: "ref \<Rightarrow> int \<Rightarrow> nat list \<Rightarrow> graph \<Rightarrow> heap \<Rightarrow> graph outcome" where
  "knn_outer_st corr k [] G h = (Inr G, h)"
| "knn_outer_st corr k (i # rest) G h =
     (case column (arrays2 h ! corr) i of
        Inl e \<Rightarrow> (Inl e, h)
      | Inr edges' \<Rightarrow>
          (case knn_inner_st corr k i (rev (argsort edges')) 0 G h of
             (Inl e, h') \<Rightarrow> (Inl e, h')
           | (Inr G', h') \<Rightarrow> knn_outer_st corr k rest G' h'))"

definition knn_st :: "ref \<Rightarrow> int \<Rightarrow> heap \<Rightarrow> graph outcome" where
  "knn_st corr k h = knn_outer_st corr k [0..<length (arrays2 h ! corr)] empty_graph h"

subsection \<open>The transforms\<close>

text \<open>
  \<open>threshold\<close> cannot raise, and its model above returns the store. The other two
  transforms are followed here to their last statement or to the statement that
  raises. A loop carries the store and a value from pass to pass.
\<close>

fun for_each_st ::
  "'a list \<Rightarrow> ('a \<Rightarrow> 's \<Rightarrow> heap \<Rightarrow> 's outcome) \<Rightarrow> 's \<Rightarrow> heap \<Rightarrow> 's outcome" where
  "for_each_st [] body acc h = (Inr acc, h)"
| "for_each_st (x # xs) body acc h =
     (case body x acc h of
        (Inl e, h') \<Rightarrow> (Inl e, h')
      | (Inr acc', h') \<Rightarrow> for_each_st xs body acc' h')"

definition partial_correlation_st :: "inverter \<Rightarrow> ref \<Rightarrow> heap \<Rightarrow> ref outcome" where
  "partial_correlation_st linalg_inv corr h =
     (let p = length (arrays2 h ! corr)
      in case linalg_inv (arrays2 h ! corr) of
           Inl e \<Rightarrow> (Inl e, h)
         | Inr P \<Rightarrow>
             (let (prec, h1) = alloc2 h P;
                  (pc, h2) = alloc2 h1 (zeros2 p p)
              in case for_each_st [0..<p] (\<lambda>i. for_each_st [0..<p] (\<lambda>j u h.
                        case getitem2 (arrays2 h ! prec) i j of Inl e \<Rightarrow> (Inl e, h) | Inr pij \<Rightarrow>
                        (case getitem2 (arrays2 h ! prec) i i of Inl e \<Rightarrow> (Inl e, h) | Inr pii \<Rightarrow>
                        (case getitem2 (arrays2 h ! prec) j j of Inl e \<Rightarrow> (Inl e, h) | Inr pjj \<Rightarrow>
                        (case setitem2 h pc i j (- pij / sqrt (pii * pjj)) of
                           Inl e \<Rightarrow> (Inl e, h)
                         | Inr h' \<Rightarrow> (Inr (), h')))))) () h2 of
                   (Inl e, h3) \<Rightarrow> (Inl e, h3)
                 | (Inr u, h3) \<Rightarrow> (Inr pc, fill_diagonal h3 pc 1)))"

text \<open>
  Where \<open>calculate_partial_correlation\<close> leaves the real numbers, the program stores
  NaN or an infinity in \<open>D[i, j, k]\<close> and goes on; nothing it does later depends on
  the values in \<open>D\<close> other than the values it stores. The model goes on as well: it
  makes the assignment, with \<open>0\<close> in the place of the value that is not a real number,
  and carries the flag \<open>not_finite\<close> through the loop. With the flag set, a run that
  reaches the \<open>return\<close> has the outcome \<open>NotFinite\<close>, not an array; the store is that
  of the program except for the entries that are not real numbers there.
\<close>

definition dependency_network_st :: "ref \<Rightarrow> heap \<Rightarrow> ref outcome" where
  "dependency_network_st corr h =
     (let p = length (arrays2 h ! corr);
          ind = [0..<p];
          (D, h1) = alloc3 h (zeros3 p p p)
      in case for_each_st [0..<p] (\<lambda>i. for_each_st [0..<p] (\<lambda>j. for_each_st [0..<p]
               (\<lambda>k not_finite h.
                if i = j \<or> i = k \<or> j = k then (Inr not_finite, h)
                else (case getitem2 (arrays2 h ! corr) i j of Inl e \<Rightarrow> (Inl e, h) | Inr cij \<Rightarrow>
                     (case calculate_partial_correlation (arrays2 h ! corr) i j k of
                        Inl e \<Rightarrow>
                          if e = NotFinite
                          then (case setitem3 h D i j k 0 of
                                  Inl e \<Rightarrow> (Inl e, h)
                                | Inr h' \<Rightarrow> (Inr True, h'))
                          else (Inl e, h)
                      | Inr pc \<Rightarrow>
                          (case setitem3 h D i j k (cij - pc) of
                             Inl e \<Rightarrow> (Inl e, h)
                           | Inr h' \<Rightarrow> (Inr not_finite, h'))))))) False h1 of
           (Inl e, h2) \<Rightarrow> (Inl e, h2)
         | (Inr not_finite, h2) \<Rightarrow>
        (case for_each_st [0..<p] (\<lambda>i. for_each_st [0..<p] (\<lambda>j u h.
                 case setitem3 h D i j j 1 of
                   Inl e \<Rightarrow> (Inl e, h)
                 | Inr h' \<Rightarrow> (Inr (), h'))) () h2 of
           (Inl e, h3) \<Rightarrow> (Inl e, h3)
         | (Inr u, h3) \<Rightarrow>
             (let (dependency_network, h4) = alloc2 h3 (zeros2 p p)
              in case for_each_st [0..<p] (\<lambda>i. for_each_st [0..<p] (\<lambda>k u h.
                        if i = k then (Inr (), h)
                        else (case getitem_masked (arrays3 h ! D) i (map (\<lambda>x. i \<noteq> x) ind) k of
                                Inl e \<Rightarrow> (Inl e, h)
                              | Inr xs \<Rightarrow>
                                  (case setitem2 h dependency_network k i
                                          (sum_list xs / (real p - 1)) of
                                     Inl e \<Rightarrow> (Inl e, h)
                                   | Inr h' \<Rightarrow> (Inr (), h'))))) () h4 of
                   (Inl e, h5) \<Rightarrow> (Inl e, h5)
                 | (Inr u, h5) \<Rightarrow>
                     if not_finite then (Inl NotFinite, h5)
                     else (Inr dependency_network, h5))))"

text \<open>The result of a call and, when it returns, the store: what the models above keep.\<close>

definition returned :: "'a outcome \<Rightarrow> error + ('a \<times> heap)" where
  "returned r = (case r of (Inl e, h) \<Rightarrow> Inl e | (Inr x, h) \<Rightarrow> Inr (x, h))"

section \<open>Specification notions and concrete inputs\<close>

subsection \<open>TMFG\<close>

text \<open>
  A correlation matrix of five variables with one common factor: the loadings are
  \<open>0.9, 0.8, 0.7, 0.6\<close> and \<open>-0.9\<close>, so the fifth variable is negatively correlated
  with the other four. Its column sums are pairwise different.
\<close>

definition tmfg_failing_input :: matrix where
  "tmfg_failing_input =
     [[1, 72/100, 63/100, 54/100, -81/100],
      [72/100, 1, 56/100, 48/100, -72/100],
      [63/100, 56/100, 1, 42/100, -63/100],
      [54/100, 48/100, 42/100, 1, -54/100],
      [-81/100, -72/100, -63/100, -54/100, 1]]"

definition small_corr :: matrix where
  "small_corr = [[1, 1/2, 1/3], [1/2, 1, 1/4], [1/3, 1/4, 1]]"

subsection \<open>Thresholding\<close>

text \<open>What \<open>threshold\<close> does to one entry.\<close>

definition threshold_entry :: "real \<Rightarrow> bool \<Rightarrow> bool \<Rightarrow> real \<Rightarrow> real" where
  "threshold_entry t binary absolute x =
     (let y = (if (if absolute then \<bar>x\<bar> < t else x < t) then 0 else x)
      in if binary \<and> \<bar>y\<bar> > 0 then 1 else y)"

text \<open>
  \<open>threshold\<close> applied to a matrix and then to its own result, with the same
  arguments: the first result and the second, both read after the second call.
\<close>

definition threshold_twice :: "heap \<Rightarrow> ref \<Rightarrow> real \<Rightarrow> bool \<Rightarrow> bool \<Rightarrow> matrix \<times> matrix" where
  "threshold_twice h corr t binary absolute =
     (let (r1, h1) = threshold h corr t binary absolute;
          (r2, h2) = threshold h1 r1 t binary absolute
      in (arrays2 h2 ! r1, arrays2 h2 ! r2))"

text \<open>No entry of the matrix passes the threshold.\<close>

definition below_threshold :: "real \<Rightarrow> bool \<Rightarrow> matrix \<Rightarrow> bool" where
  "below_threshold t absolute C =
     list_all (list_all (\<lambda>x. if absolute then \<bar>x\<bar> < t else x < t)) C"

definition threshold_heap :: heap where
  "threshold_heap = \<lparr>arrays2 = [[[2]]], arrays3 = []\<rparr>"

subsection \<open>Stores and shapes\<close>

text \<open>A matrix of \<open>p\<close> rows and \<open>q\<close> columns.\<close>

definition dims2 :: "nat \<Rightarrow> nat \<Rightarrow> matrix \<Rightarrow> bool" where
  "dims2 p q M = (length M = p \<and> list_all (\<lambda>row. length row = q) M)"

text \<open>Every diagonal entry exists and is \<open>1\<close>.\<close>

definition unit_diagonal :: "matrix \<Rightarrow> bool" where
  "unit_diagonal M = list_all (\<lambda>i. getitem2 M i i = Inr 1) [0..<length M]"

text \<open>
  Every array of the store \<open>h\<close> is still there in \<open>h'\<close>, under its reference and
  with the values it had.
\<close>

definition preserves :: "heap \<Rightarrow> heap \<Rightarrow> bool" where
  "preserves h h' =
     (take (length (arrays2 h)) (arrays2 h') = arrays2 h \<and>
      take (length (arrays3 h)) (arrays3 h') = arrays3 h)"

subsection \<open>Partial correlation\<close>

text \<open>
  The state of the loops of \<open>partial_correlation\<close>, started in the store \<open>h0\<close>: the old
  arrays, then the precision matrix \<open>P\<close>, then the result, a \<open>p \<times> p\<close> matrix.
\<close>

definition pc_inv :: "heap \<Rightarrow> nat \<Rightarrow> matrix \<Rightarrow> heap \<Rightarrow> bool" where
  "pc_inv h0 p P h =
     (arrays3 h = arrays3 h0 \<and>
      length (arrays2 h) = length (arrays2 h0) + 2 \<and>
      take (length (arrays2 h0)) (arrays2 h) = arrays2 h0 \<and>
      arrays2 h ! length (arrays2 h0) = P \<and>
      dims2 p p (arrays2 h ! Suc (length (arrays2 h0))))"

text \<open>
  An inverter for the witnesses: the inverse of a \<open>2 \<times> 2\<close> matrix by its adjugate,
  LinAlgError when the determinant is zero (and on any other shape).
\<close>

definition inv2 :: inverter where
  "inv2 M =
     (case M of
        [[a, b], [c, d]] \<Rightarrow>
          if a * d - b * c = 0 then Inl LinAlgError
          else Inr [[d / (a * d - b * c), - b / (a * d - b * c)],
                    [- c / (a * d - b * c), a / (a * d - b * c)]]
      | _ \<Rightarrow> Inl LinAlgError)"

subsection \<open>Dependency network\<close>

text \<open>
  A piece of code \<open>f\<close> over a state writes the cells \<open>W\<close> with the values \<open>G\<close>:
  from every state that satisfies \<open>Inv\<close> it returns, keeps \<open>Inv\<close>, sets each cell of
  \<open>W\<close> to its value under \<open>G\<close> and leaves every other cell as it was.
\<close>

definition writes ::
  "('s \<Rightarrow> bool) \<Rightarrow> ('s \<Rightarrow> 'y \<Rightarrow> real) \<Rightarrow> ('y \<Rightarrow> real) \<Rightarrow> 'y set \<Rightarrow> ('s \<Rightarrow> error + 's) \<Rightarrow> bool" where
  "writes Inv content G W f =
     (\<forall>s. Inv s \<longrightarrow>
        (\<exists>s'. f s = Inr s' \<and> Inv s' \<and> (\<forall>y. content s' y = (if y \<in> W then G y else content s y))))"

text \<open>A \<open>p \<times> p \<times> p\<close> tensor.\<close>

definition dims3 :: "nat \<Rightarrow> tensor \<Rightarrow> bool" where
  "dims3 p T = (length T = p \<and> list_all (dims2 p p) T)"

text \<open>
  The number under the root in \<open>calculate_partial_correlation\<close>, and the matrices
  for which it is positive at every trio of pairwise distinct variables: the matrices
  on which \<open>dependency_network\<close> computes with real numbers only. A matrix whose
  entries off the diagonal lie strictly between \<open>-1\<close> and \<open>1\<close> is one of them.
\<close>

definition dem :: "matrix \<Rightarrow> nat \<Rightarrow> nat \<Rightarrow> nat \<Rightarrow> real" where
  "dem C i j k = (1 - (C ! i ! k)\<^sup>2) * (1 - (C ! k ! j)\<^sup>2)"

definition nondegenerate :: "matrix \<Rightarrow> bool" where
  "nondegenerate C =
     list_all (\<lambda>i. list_all (\<lambda>j. list_all (\<lambda>k.
         i = j \<or> i = k \<or> j = k \<or> 0 < dem C i j k)
       [0..<length C]) [0..<length C]) [0..<length C]"

definition off_diagonal_below_one :: "matrix \<Rightarrow> bool" where
  "off_diagonal_below_one C =
     list_all (\<lambda>i. list_all (\<lambda>j. i = j \<or> \<bar>C ! i ! j\<bar> < 1) [0..<length C]) [0..<length C]"

text \<open>
  The value \<open>calculate_partial_correlation\<close> returns when its reads succeed and the
  number under the root is positive.
\<close>

definition partial_corr_formula :: "matrix \<Rightarrow> nat \<Rightarrow> nat \<Rightarrow> nat \<Rightarrow> real" where
  "partial_corr_formula C i j k =
     (C ! i ! j - C ! i ! k * C ! k ! j) / sqrt (dem C i j k)"

text \<open>
  The state of the loops of \<open>dependency_network\<close> that fill \<open>D\<close>, started in \<open>h0\<close>:
  the matrices are untouched, and one \<open>p \<times> p \<times> p\<close> tensor stands behind the old ones.
\<close>

definition dn_inv :: "heap \<Rightarrow> nat \<Rightarrow> heap \<Rightarrow> bool" where
  "dn_inv h0 p h =
     (arrays2 h = arrays2 h0 \<and>
      length (arrays3 h) = Suc (length (arrays3 h0)) \<and>
      take (length (arrays3 h0)) (arrays3 h) = arrays3 h0 \<and>
      dims3 p (arrays3 h ! length (arrays3 h0)))"

text \<open>The entries of the tensor under reference \<open>a\<close>, and of the matrix under \<open>a\<close>.\<close>

definition tensor_at :: "nat \<Rightarrow> heap \<Rightarrow> nat \<times> nat \<times> nat \<Rightarrow> real" where
  "tensor_at a h = (\<lambda>(i, j, k). arrays3 h ! a ! i ! j ! k)"

text \<open>
  The dependency tensor of the spec: \<open>D[i,j,j] = 1\<close>, and
  \<open>D[i,j,k] = C[i,j] - partialcorr(i,j|k)\<close> otherwise (read for pairwise distinct
  \<open>i, j, k\<close> only).
\<close>

definition dependency_D :: "matrix \<Rightarrow> nat \<times> nat \<times> nat \<Rightarrow> real" where
  "dependency_D C = (\<lambda>(i, j, k). if j = k then 1 else C ! i ! j - partial_corr_formula C i j k)"

text \<open>The cells the first and the second loop nest of \<open>dependency_network\<close> write.\<close>

definition distinct_triples :: "nat \<Rightarrow> (nat \<times> nat \<times> nat) set" where
  "distinct_triples p = {(i, j, k). i < p \<and> j < p \<and> k < p \<and> i \<noteq> j \<and> i \<noteq> k \<and> j \<noteq> k}"

definition sentinel_triples :: "nat \<Rightarrow> (nat \<times> nat \<times> nat) set" where
  "sentinel_triples p = {(i, j, k). i < p \<and> j < p \<and> k = j}"

text \<open>
  The state of the last loop nest of \<open>dependency_network\<close>, started in \<open>h0\<close>: the
  tensors are \<open>Ts\<close>, the old matrices are untouched, and the result is a \<open>p \<times> p\<close>
  matrix behind them.
\<close>

definition out_inv :: "heap \<Rightarrow> nat \<Rightarrow> tensor list \<Rightarrow> heap \<Rightarrow> bool" where
  "out_inv h0 p Ts h =
     (arrays3 h = Ts \<and>
      length (arrays2 h) = Suc (length (arrays2 h0)) \<and>
      take (length (arrays2 h0)) (arrays2 h) = arrays2 h0 \<and>
      dims2 p p (arrays2 h ! length (arrays2 h0)))"

definition matrix_at :: "nat \<Rightarrow> heap \<Rightarrow> nat \<times> nat \<Rightarrow> real" where
  "matrix_at a h = (\<lambda>(k, i). arrays2 h ! a ! k ! i)"

text \<open>\<open>D[i, i != ind, k].sum() / (p - 1)\<close> for the tensor \<open>T\<close>.\<close>

definition masked_mean :: "nat \<Rightarrow> tensor \<Rightarrow> nat \<times> nat \<Rightarrow> real" where
  "masked_mean p T = (\<lambda>(k, i).
     sum_list (map (\<lambda>j. T ! i ! j ! k) (filter (\<lambda>j. i \<noteq> j) [0..<p])) / (real p - 1))"

text \<open>The matrix product, the identity matrix, and what it is to be the inverse.\<close>

definition mat_mult :: "matrix \<Rightarrow> matrix \<Rightarrow> matrix" where
  "mat_mult A B =
     map (\<lambda>row. map (\<lambda>j. sum_list (map (\<lambda>l. row ! l * B ! l ! j) [0..<length B]))
                    [0..<(case B of [] \<Rightarrow> 0 | r # rs \<Rightarrow> length r)]) A"

definition identity_matrix :: "nat \<Rightarrow> matrix" where
  "identity_matrix n = map (\<lambda>i. map (\<lambda>j. if i = j then 1 else 0) [0..<n]) [0..<n]"

definition is_inverse :: "matrix \<Rightarrow> matrix \<Rightarrow> bool" where
  "is_inverse M P = (dims2 (length M) (length M) P \<and> mat_mult M P = identity_matrix (length M))"

text \<open>
  The correlation matrix of the three variables \<open>i, j, k\<close>, in this order, and the
  determinant of a \<open>3 \<times> 3\<close> matrix.
\<close>

definition trio :: "matrix \<Rightarrow> nat \<Rightarrow> nat \<Rightarrow> nat \<Rightarrow> matrix" where
  "trio C i j k =
     [[C ! i ! i, C ! i ! j, C ! i ! k],
      [C ! j ! i, C ! j ! j, C ! j ! k],
      [C ! k ! i, C ! k ! j, C ! k ! k]]"

definition det3 :: "matrix \<Rightarrow> real" where
  "det3 M =
     M ! 0 ! 0 * (M ! 1 ! 1 * M ! 2 ! 2 - M ! 1 ! 2 * M ! 2 ! 1)
     - M ! 0 ! 1 * (M ! 1 ! 0 * M ! 2 ! 2 - M ! 1 ! 2 * M ! 2 ! 0)
     + M ! 0 ! 2 * (M ! 1 ! 0 * M ! 2 ! 1 - M ! 1 ! 1 * M ! 2 ! 0)"

text \<open>
  The formula of the partial correlation transform for one entry of the precision
  matrix \<open>P\<close>: \<open>- P[i,j] / sqrt(P[i,i] * P[j,j])\<close>.
\<close>

definition precision_formula :: "matrix \<Rightarrow> nat \<Rightarrow> nat \<Rightarrow> real" where
  "precision_formula P i j = - (P ! i ! j) / sqrt (P ! i ! i * P ! j ! j)"

text \<open>The inverse of \<open>small_corr\<close>, and a store that holds \<open>small_corr\<close> only.\<close>

definition trio_inverse :: matrix where
  "trio_inverse =
     [[27/19, -12/19, -6/19],
      [-12/19, 128/95, -12/95],
      [-6/19, -12/95, 108/95]]"

definition small_heap :: heap where
  "small_heap = \<lparr>arrays2 = [small_corr], arrays3 = []\<rparr>"

text \<open>
  The correlation matrix of three variables of which the first two are the same
  variable, and a store that holds it.
\<close>

definition dup_corr :: matrix where
  "dup_corr = [[1, 1, 1/2], [1, 1, 1/2], [1/2, 1/2, 1]]"

definition dup_heap :: heap where
  "dup_heap = \<lparr>arrays2 = [dup_corr], arrays3 = []\<rparr>"

subsection \<open>PMFG\<close>

text \<open>
  Every graph on at most four nodes is planar; the planarity test of such graphs
  answers yes.
\<close>

definition small_graph_planarity :: planarity_test where
  "small_graph_planarity ns es = True"

text \<open>
  The state of the PMFG loop before each pass: the nodes \<open>0, \<dots>, p - 1\<close> are there,
  the graph passes the planarity test, and it has fewer than \<open>3 (p - 2)\<close> edges.
\<close>

definition pmfg_inv :: "planarity_test \<Rightarrow> nat \<Rightarrow> graph \<Rightarrow> bool" where
  "pmfg_inv is_planar p G =
     (set [0..<p] \<subseteq> set (nodes G) \<and> check_planarity is_planar G \<and>
      int (number_of_edges G) < 3 * (int p - 2))"

text \<open>The graph of \<open>pmfg\<close> after the first \<open>n\<close> candidates (or after the break).\<close>

definition pmfg_after :: "planarity_test \<Rightarrow> matrix \<Rightarrow> nat \<Rightarrow> error + graph" where
  "pmfg_after is_planar corr n =
     pmfg_loop is_planar corr (length corr) (take n (rev (argsort (concat corr))))
       (add_nodes_from empty_graph [0..<length corr])"

subsection \<open>Spanning tree\<close>


















section \<open>Properties\<close>

subsection \<open>TMFG\<close>

lemma column_sums_length: "is_square C \<Longrightarrow> length (column_sums C) = length C"
  by (cases C) (auto simp: column_sums_def is_square_def)

lemma is_square_map: "is_square C \<Longrightarrow> is_square (map (map f) C)"
  by (auto simp: is_square_def list_all_iff)

text \<open>
  C1. The claim: for every correlation matrix with \<open>p \<ge> 4\<close>, \<open>tmfg\<close> returns a
  connected planar graph with \<open>p\<close> nodes and \<open>3p - 6\<close> edges. The code starts its search
  for the best face at \<open>max_corr = -1\<close>; on \<open>tmfg_failing_input\<close>, without the
  absolute values, no face reaches a sum above \<open>-1\<close>, \<open>max_i\<close> stays the integer \<open>-1\<close>
  and \<open>set(max_i)\<close> raises TypeError: no graph is returned.
\<close>

theorem tmfg_negative_correlation_raises:
  "tmfg tmfg_failing_input False = Inl TypeError"
  by code_simp

text \<open>
  C6. For every square matrix with fewer than four rows, \<open>tmfg\<close> fails: reading the
  four seed nodes raises IndexError, which is the code's form of the spec's
  InvalidInput.
\<close>

theorem tmfg_small_input_fails:
  assumes "is_square corr" and "length corr < 4"
  shows "tmfg corr absolute = Inl IndexError"
proof -
  let ?W = "if absolute then map (map abs) corr else corr"
  have "is_square ?W"
    using assms(1) by (simp add: is_square_map)
  then have "length (column_sums ?W) = length corr"
    using column_sums_length[of ?W] by simp
  then have "length (rev (argsort (column_sums ?W))) < 4"
    using assms(2) by (simp add: argsort_length)
  then show ?thesis
    by (simp add: tmfg_def Let_def)
qed

theorem tmfg_small_input_fails_witness:
  "tmfg small_corr False = Inl IndexError"
  using tmfg_small_input_fails[of small_corr False]
  by (simp add: is_square_def small_corr_def)

text \<open>
  C7, as claimed: the face insertion routine rejects every face that does not have
  exactly three members. It accepts a face of two members (and \<open>tmfg\<close> itself passes
  such faces when it builds the seed tetrahedron).
\<close>

theorem add_triangular_face_arity_counterexample:
  "length [1, 2 :: nat] \<noteq> 3 \<and>
   add_triangular_face empty_graph (Scalar 0) [1, 2] small_corr []
     = Inr \<lparr>nodes = [0, 1, 2], edges = [((0, 1), 1/2), ((0, 2), 1/3)]\<rparr>"
  by (simp add: getitem2_def add_edge_def add_node_def has_edge_def same_edge_def
      empty_graph_def small_corr_def)

lemma add_face_edges_ok:
  "new < length C \<Longrightarrow> list_all (\<lambda>j. j < length (C ! new)) old_set \<Longrightarrow>
   \<exists>G'. add_face_edges G new old_set C = Inr G'"
  by (induction old_set arbitrary: G) (auto simp: getitem2_def)

text \<open>
  C7, amended: the routine fails with ValueError whenever its node argument is not a
  scalar, and whenever its face argument has more than three members; a face of at
  most three members is accepted (for a scalar node, with all indices inside the
  matrix).
\<close>

theorem add_triangular_face_guards:
  "add_triangular_face G (Sized xs) old_set C faces = Inl ValueError \<and>
   (length old_set > 3 \<longrightarrow> add_triangular_face G new old_set C faces = Inl ValueError) \<and>
   (length old_set \<le> 3 \<and> n < length C \<and> list_all (\<lambda>j. j < length (C ! n)) old_set \<longrightarrow>
      (\<exists>G'. add_triangular_face G (Scalar n) old_set C faces = Inr G'))"
proof (intro conjI impI)
  show "add_triangular_face G (Sized xs) old_set C faces = Inl ValueError"
    by simp
next
  assume "length old_set > 3"
  then show "add_triangular_face G new old_set C faces = Inl ValueError"
    by (cases new) auto
next
  assume "length old_set \<le> 3 \<and> n < length C \<and> list_all (\<lambda>j. j < length (C ! n)) old_set"
  then show "\<exists>G'. add_triangular_face G (Scalar n) old_set C faces = Inr G'"
    using add_face_edges_ok by simp
qed

theorem add_triangular_face_guards_witness:
  "add_triangular_face empty_graph (Sized [0]) [1, 2, 0] small_corr [] = Inl ValueError \<and>
   add_triangular_face empty_graph (Scalar 0) [0, 1, 2, 0] small_corr [] = Inl ValueError \<and>
   (\<exists>G'. add_triangular_face empty_graph (Scalar 0) [1, 2] small_corr [] = Inr G')"
  using add_triangular_face_guards[of empty_graph "[0]" "[1, 2, 0]" small_corr "[]" "Scalar 0" 0]
    add_triangular_face_guards[of empty_graph "[0]" "[0, 1, 2, 0]" small_corr "[]" "Scalar 0" 0]
    add_triangular_face_guards[of empty_graph "[0]" "[1, 2]" small_corr "[]" "Scalar 0" 0]
  by (simp add: small_corr_def)

subsection \<open>Node sets\<close>

text \<open>
  C8. The claim: every builder returns a graph on the nodes \<open>0, \<dots>, p - 1\<close>. \<open>tmfg\<close>
  and \<open>pmfg\<close> add these nodes before any edge; \<open>knn\<close> and \<open>mst\<close> do not, and a node
  that gets no edge is missing from their result: \<open>knn\<close> with \<open>k = 0\<close> and \<open>mst\<close> on
  a single variable return the graph without nodes.
\<close>

theorem knn_mst_missing_nodes:
  "knn [[1, 1/2], [1/2, 1]] 0 = Inr empty_graph \<and> mst [[1]] = Inr empty_graph \<and>
   nodes empty_graph = []"
  by code_simp

subsection \<open>Thresholding\<close>

lemma threshold_eq:
  "corr < length (arrays2 h) \<Longrightarrow>
   threshold h corr t binary absolute =
     (length (arrays2 h),
      h\<lparr>arrays2 := arrays2 h @ [map (map (threshold_entry t binary absolute)) (arrays2 h ! corr)]\<rparr>)"
  by (auto simp: threshold_def alloc2_def setitem_mask_def threshold_entry_def Let_def
      nth_append list_update_append map_eq_conv)

lemma threshold_twice_eq:
  assumes "corr < length (arrays2 h)"
  shows "threshold_twice h corr t binary absolute =
     (map (map (threshold_entry t binary absolute)) (arrays2 h ! corr),
      map (map (threshold_entry t binary absolute \<circ> threshold_entry t binary absolute))
        (arrays2 h ! corr))"
  using assms
  by (simp add: threshold_twice_def threshold_eq nth_append)

lemma threshold_entry_twice:
  "threshold_entry t binary absolute (threshold_entry t binary absolute x)
     = threshold_entry t binary absolute x
   \<longleftrightarrow> \<not> binary \<or> t \<le> 1 \<or> (if absolute then \<bar>x\<bar> < t else x < t)"
  by (auto simp: threshold_entry_def Let_def split: if_splits)

text \<open>
  C4, as claimed: for every matrix, threshold and flags, thresholding twice gives the
  result of thresholding once. With \<open>binary\<close> set and the threshold \<open>1.5\<close>, the entry
  \<open>2\<close> becomes \<open>1\<close>, and the second pass sets that \<open>1\<close> to \<open>0\<close>.
\<close>

theorem threshold_idempotent_counterexample:
  "threshold_twice threshold_heap 0 (3/2) True True = ([[1]], [[0]]) \<and>
   snd (threshold_twice threshold_heap 0 (3/2) True True)
     \<noteq> fst (threshold_twice threshold_heap 0 (3/2) True True)"
  by (simp add: threshold_twice_def threshold_def threshold_heap_def alloc2_def setitem_mask_def)

text \<open>
  C4, amended: thresholding twice gives the result of thresholding once exactly when
  \<open>binary\<close> is off, or the threshold is at most \<open>1\<close>, or no entry of the matrix
  passes the threshold.
\<close>

theorem threshold_idempotent_iff:
  assumes "corr < length (arrays2 h)"
  shows "(snd (threshold_twice h corr t binary absolute)
            = fst (threshold_twice h corr t binary absolute))
     \<longleftrightarrow> (\<not> binary \<or> t \<le> 1 \<or> below_threshold t absolute (arrays2 h ! corr))"
proof -
  let ?f = "threshold_entry t binary absolute"
  let ?C = "arrays2 h ! corr"
  have "(snd (threshold_twice h corr t binary absolute)
            = fst (threshold_twice h corr t binary absolute))
      \<longleftrightarrow> (\<forall>row \<in> set ?C. \<forall>x \<in> set row. ?f (?f x) = ?f x)"
    by (auto simp: threshold_twice_eq[OF assms] map_eq_conv)
  also have "\<dots> \<longleftrightarrow> (\<forall>row \<in> set ?C. \<forall>x \<in> set row.
       \<not> binary \<or> t \<le> 1 \<or> (if absolute then \<bar>x\<bar> < t else x < t))"
    by (simp only: threshold_entry_twice)
  also have "\<dots> \<longleftrightarrow> (\<not> binary \<or> t \<le> 1 \<or> below_threshold t absolute ?C)"
    by (auto simp: below_threshold_def list_all_iff)
  finally show ?thesis .
qed

theorem threshold_idempotent_iff_witness:
  "snd (threshold_twice \<lparr>arrays2 = [small_corr], arrays3 = []\<rparr> 0 (2/5) True True)
   = fst (threshold_twice \<lparr>arrays2 = [small_corr], arrays3 = []\<rparr> 0 (2/5) True True)"
  using threshold_idempotent_iff[of 0 "\<lparr>arrays2 = [small_corr], arrays3 = []\<rparr>" "2/5" True True]
  by simp

subsection \<open>Partial correlation\<close>

lemma for_each_invariant:
  assumes "I s"
    and "\<And>x s. x \<in> set xs \<Longrightarrow> I s \<Longrightarrow> \<exists>s'. body x s = Inr s' \<and> I s'"
  shows "\<exists>s'. for_each xs body s = Inr s' \<and> I s'"
  using assms
proof (induction xs arbitrary: s)
  case Nil
  then show ?case by simp
next
  case (Cons x xs)
  from Cons.prems obtain s1 where s1: "body x s = Inr s1" "I s1"
    by (meson list.set_intros(1))
  have "\<exists>s'. for_each xs body s1 = Inr s' \<and> I s'"
    using Cons.IH[OF s1(2)] Cons.prems(2) by (meson list.set_intros(2))
  with s1 show ?case by simp
qed

lemma preserves_refl: "preserves h h"
  by (simp add: preserves_def)

lemma preserves_alloc2: "preserves h (snd (alloc2 h M))"
  by (simp add: preserves_def alloc2_def)

lemma preserves_alloc3: "preserves h (snd (alloc3 h M))"
  by (simp add: preserves_def alloc3_def)

lemma preserves_trans: "preserves h h1 \<Longrightarrow> preserves h1 h2 \<Longrightarrow> preserves h h2"
  unfolding preserves_def
  by (metis (no_types, lifting) length_take min.absorb2 min.cobounded1 nat_le_linear take_all take_take)

lemma dims2_zeros2: "dims2 p q (zeros2 p q)"
  by (simp add: dims2_def zeros2_def list_all_iff)

lemma dims2_update: "dims2 p q M \<Longrightarrow> dims2 p q (M[i := (M ! i)[j := v]])"
  by (cases "i < length M") (auto simp: dims2_def list_all_length nth_list_update)

lemma getitem2_dims: "dims2 p q M \<Longrightarrow> i < p \<Longrightarrow> j < q \<Longrightarrow> getitem2 M i j = Inr (M ! i ! j)"
  by (simp add: getitem2_def dims2_def list_all_length)

lemma pc_inv_setitem2:
  assumes "pc_inv h0 p P h" "i < p" "j < p"
  shows "\<exists>h'. setitem2 h (Suc (length (arrays2 h0))) i j v = Inr h' \<and> pc_inv h0 p P h'"
proof -
  let ?a = "Suc (length (arrays2 h0))"
  let ?M = "arrays2 h ! ?a"
  from assms have d: "dims2 p p ?M" and len: "length (arrays2 h) = length (arrays2 h0) + 2"
    by (simp_all add: pc_inv_def)
  from d assms(2,3) have "i < length ?M \<and> j < length (?M ! i)"
    by (simp add: dims2_def list_all_length)
  then have eq: "setitem2 h ?a i j v
      = Inr (h\<lparr>arrays2 := (arrays2 h)[?a := ?M[i := (?M ! i)[j := v]]]\<rparr>)"
    by (simp add: setitem2_def Let_def)
  have "pc_inv h0 p P (h\<lparr>arrays2 := (arrays2 h)[?a := ?M[i := (?M ! i)[j := v]]]\<rparr>)"
    using assms(1) dims2_update[OF d, of i j v] len
    by (simp add: pc_inv_def take_update_cancel)
  with eq show ?thesis by simp
qed

lemma pc_body:
  assumes "pc_inv h0 p P h" "dims2 p p P" "i < p" "j < p"
  shows "\<exists>h'. (case getitem2 (arrays2 h ! length (arrays2 h0)) i j of Inl e \<Rightarrow> Inl e | Inr pij \<Rightarrow>
                (case getitem2 (arrays2 h ! length (arrays2 h0)) i i of Inl e \<Rightarrow> Inl e | Inr pii \<Rightarrow>
                (case getitem2 (arrays2 h ! length (arrays2 h0)) j j of Inl e \<Rightarrow> Inl e | Inr pjj \<Rightarrow>
                   setitem2 h (Suc (length (arrays2 h0))) i j (- pij / sqrt (pii * pjj)))))
              = Inr h' \<and> pc_inv h0 p P h'"
proof -
  from assms(1) have "arrays2 h ! length (arrays2 h0) = P"
    by (simp add: pc_inv_def)
  then show ?thesis
    using assms pc_inv_setitem2[OF assms(1,3,4)]
    by (simp add: getitem2_dims)
qed

lemma fill_diagonal_unit:
  assumes "dims2 p p (arrays2 h ! a)" "a < length (arrays2 h)"
  shows "unit_diagonal (arrays2 (fill_diagonal h a 1) ! a) \<and> dims2 p p (arrays2 (fill_diagonal h a 1) ! a)"
  using assms
  by (auto simp: fill_diagonal_def unit_diagonal_def dims2_def list_all_length getitem2_def
      nth_enumerate_eq)


lemma partial_correlation_loops:
  assumes "pc_inv h0 p P h" "dims2 p p P"
  shows "\<exists>h'. for_each [0..<p] (\<lambda>i. for_each [0..<p] (\<lambda>j h.
            case getitem2 (arrays2 h ! length (arrays2 h0)) i j of Inl e \<Rightarrow> Inl e | Inr pij \<Rightarrow>
            (case getitem2 (arrays2 h ! length (arrays2 h0)) i i of Inl e \<Rightarrow> Inl e | Inr pii \<Rightarrow>
            (case getitem2 (arrays2 h ! length (arrays2 h0)) j j of Inl e \<Rightarrow> Inl e | Inr pjj \<Rightarrow>
               setitem2 h (Suc (length (arrays2 h0))) i j (- pij / sqrt (pii * pjj)))))) h
          = Inr h' \<and> pc_inv h0 p P h'"
proof (rule for_each_invariant[where I = "pc_inv h0 p P"])
  show "pc_inv h0 p P h" by fact
next
  fix i s
  assume i: "i \<in> set [0..<p]" and s: "pc_inv h0 p P s"
  show "\<exists>s'. for_each [0..<p] (\<lambda>j h.
            case getitem2 (arrays2 h ! length (arrays2 h0)) i j of Inl e \<Rightarrow> Inl e | Inr pij \<Rightarrow>
            (case getitem2 (arrays2 h ! length (arrays2 h0)) i i of Inl e \<Rightarrow> Inl e | Inr pii \<Rightarrow>
            (case getitem2 (arrays2 h ! length (arrays2 h0)) j j of Inl e \<Rightarrow> Inl e | Inr pjj \<Rightarrow>
               setitem2 h (Suc (length (arrays2 h0))) i j (- pij / sqrt (pii * pjj))))) s
          = Inr s' \<and> pc_inv h0 p P s'"
  proof (rule for_each_invariant[where I = "pc_inv h0 p P"])
    show "pc_inv h0 p P s" by fact
  next
    fix j s2
    assume "j \<in> set [0..<p]" and "pc_inv h0 p P s2"
    with i assms(2) show "\<exists>s'. (case getitem2 (arrays2 s2 ! length (arrays2 h0)) i j of Inl e \<Rightarrow> Inl e | Inr pij \<Rightarrow>
            (case getitem2 (arrays2 s2 ! length (arrays2 h0)) i i of Inl e \<Rightarrow> Inl e | Inr pii \<Rightarrow>
            (case getitem2 (arrays2 s2 ! length (arrays2 h0)) j j of Inl e \<Rightarrow> Inl e | Inr pjj \<Rightarrow>
               setitem2 s2 (Suc (length (arrays2 h0))) i j (- pij / sqrt (pii * pjj)))))
          = Inr s' \<and> pc_inv h0 p P s'"
      using pc_body[of h0 p P s2 i j] by simp
  qed
qed

lemma partial_correlation_returns:
  assumes "linalg_inv (arrays2 h ! corr) = Inr P"
    and "dims2 (length (arrays2 h ! corr)) (length (arrays2 h ! corr)) P"
  shows "\<exists>h'. partial_correlation linalg_inv h corr = Inr (Suc (length (arrays2 h)), h') \<and>
           preserves h h' \<and>
           dims2 (length (arrays2 h ! corr)) (length (arrays2 h ! corr)) (arrays2 h' ! Suc (length (arrays2 h))) \<and>
           unit_diagonal (arrays2 h' ! Suc (length (arrays2 h)))"
proof -
  let ?p = "length (arrays2 h ! corr)"
  let ?h2 = "h\<lparr>arrays2 := arrays2 h @ [P, zeros2 ?p ?p]\<rparr>"
  have "pc_inv h ?p P ?h2"
    by (simp add: pc_inv_def nth_append dims2_zeros2)
  from partial_correlation_loops[OF this assms(2)] obtain h3 where
    lp: "for_each [0..<?p] (\<lambda>i. for_each [0..<?p] (\<lambda>j h'.
            case getitem2 (arrays2 h' ! length (arrays2 h)) i j of Inl e \<Rightarrow> Inl e | Inr pij \<Rightarrow>
            (case getitem2 (arrays2 h' ! length (arrays2 h)) i i of Inl e \<Rightarrow> Inl e | Inr pii \<Rightarrow>
            (case getitem2 (arrays2 h' ! length (arrays2 h)) j j of Inl e \<Rightarrow> Inl e | Inr pjj \<Rightarrow>
               setitem2 h' (Suc (length (arrays2 h))) i j (- pij / sqrt (pii * pjj)))))) ?h2
          = Inr h3" and inv3: "pc_inv h ?p P h3"
    by blast
  have ret: "partial_correlation linalg_inv h corr
      = Inr (Suc (length (arrays2 h)), fill_diagonal h3 (Suc (length (arrays2 h))) 1)"
    using assms(1) lp by (simp add: partial_correlation_def alloc2_def Let_def cong: sum.case_cong)
  from inv3 have d3: "dims2 ?p ?p (arrays2 h3 ! Suc (length (arrays2 h)))"
    and l3: "Suc (length (arrays2 h)) < length (arrays2 h3)"
    by (simp_all add: pc_inv_def)
  have "preserves h (fill_diagonal h3 (Suc (length (arrays2 h))) 1)"
    using inv3 by (simp add: preserves_def pc_inv_def fill_diagonal_def take_update_cancel)
  with ret fill_diagonal_unit[OF d3 l3] show ?thesis
    by simp
qed

text \<open>
  C5. When the inverter returns the inverse of the \<open>p \<times> p\<close> input (the input is
  invertible), \<open>partial_correlation\<close> returns a \<open>p \<times> p\<close> matrix whose diagonal
  entries are all \<open>1\<close>; when the inverter raises LinAlgError (the input is singular;
  the spec's SingularMatrixError), \<open>partial_correlation\<close> raises it too.
\<close>

theorem partial_correlation_unit_diagonal:
  assumes "corr < length (arrays2 h)"
  shows "(\<forall>P. linalg_inv (arrays2 h ! corr) = Inr P \<and>
              dims2 (length (arrays2 h ! corr)) (length (arrays2 h ! corr)) P \<longrightarrow>
            (\<exists>pc h'. partial_correlation linalg_inv h corr = Inr (pc, h') \<and>
                     length (arrays2 h' ! pc) = length (arrays2 h ! corr) \<and>
                     unit_diagonal (arrays2 h' ! pc))) \<and>
         (linalg_inv (arrays2 h ! corr) = Inl LinAlgError \<longrightarrow>
            partial_correlation linalg_inv h corr = Inl LinAlgError)"
proof (intro conjI allI impI)
  fix P
  assume "linalg_inv (arrays2 h ! corr) = Inr P \<and>
          dims2 (length (arrays2 h ! corr)) (length (arrays2 h ! corr)) P"
  then show "\<exists>pc h'. partial_correlation linalg_inv h corr = Inr (pc, h') \<and>
                     length (arrays2 h' ! pc) = length (arrays2 h ! corr) \<and>
                     unit_diagonal (arrays2 h' ! pc)"
    using partial_correlation_returns[of linalg_inv h corr P]
    by (auto simp: dims2_def)
next
  assume "linalg_inv (arrays2 h ! corr) = Inl LinAlgError"
  then show "partial_correlation linalg_inv h corr = Inl LinAlgError"
    by (simp add: partial_correlation_def Let_def)
qed


theorem partial_correlation_unit_diagonal_witness:
  "(\<exists>pc h'. partial_correlation inv2 \<lparr>arrays2 = [[[1, 1/2], [1/2, 1]]], arrays3 = []\<rparr> 0 = Inr (pc, h') \<and>
       length (arrays2 h' ! pc) = 2 \<and> unit_diagonal (arrays2 h' ! pc)) \<and>
   partial_correlation inv2 \<lparr>arrays2 = [[[1, 1], [1, 1]]], arrays3 = []\<rparr> 0 = Inl LinAlgError"
  using partial_correlation_unit_diagonal[of 0 "\<lparr>arrays2 = [[[1, 1/2], [1/2, 1]]], arrays3 = []\<rparr>" inv2]
    partial_correlation_unit_diagonal[of 0 "\<lparr>arrays2 = [[[1, 1], [1, 1]]], arrays3 = []\<rparr>" inv2]
  by (simp add: inv2_def dims2_def numeral_2_eq_2)

subsection \<open>Dependency network\<close>

lemma writes_skip: "writes Inv content G {} Inr"
  by (simp add: writes_def)

lemma writes_for_each:
  assumes "\<And>x. x \<in> set xs \<Longrightarrow> writes Inv content G (W x) (body x)"
  shows "writes Inv content G (\<Union>x \<in> set xs. W x) (for_each xs body)"
  using assms
proof (induction xs)
  case Nil
  then show ?case by (simp add: writes_def)
next
  case (Cons x xs)
  have hd: "writes Inv content G (W x) (body x)"
    using Cons.prems by simp
  have tl: "writes Inv content G (\<Union>x \<in> set xs. W x) (for_each xs body)"
    using Cons.IH Cons.prems by simp
  show ?case
    unfolding writes_def
  proof (intro allI impI)
    fix s assume "Inv s"
    with hd obtain s1 where s1: "body x s = Inr s1" "Inv s1"
      "\<forall>y. content s1 y = (if y \<in> W x then G y else content s y)"
      unfolding writes_def by blast
    with tl obtain s2 where s2: "for_each xs body s1 = Inr s2" "Inv s2"
      "\<forall>y. content s2 y = (if y \<in> (\<Union>x \<in> set xs. W x) then G y else content s1 y)"
      unfolding writes_def by blast
    have "\<forall>y. content s2 y = (if y \<in> (\<Union>x \<in> set (x # xs). W x) then G y else content s y)"
      using s1(3) s2(3) by auto
    with s1(1) s2(1,2)
    show "\<exists>s'. for_each (x # xs) body s = Inr s' \<and> Inv s' \<and>
        (\<forall>y. content s' y = (if y \<in> (\<Union>x \<in> set (x # xs). W x) then G y else content s y))"
      by simp
  qed
qed

lemma is_square_dims2: "is_square C \<longleftrightarrow> dims2 (length C) (length C) C"
  by (simp add: is_square_def dims2_def)

lemma calculate_partial_correlation_eq:
  "dims2 p p C \<Longrightarrow> i < p \<Longrightarrow> j < p \<Longrightarrow> k < p \<Longrightarrow> 0 < dem C i j k \<Longrightarrow>
   calculate_partial_correlation C i j k = Inr (partial_corr_formula C i j k)"
  by (simp add: calculate_partial_correlation_def partial_corr_formula_def dem_def
      getitem2_dims Let_def)

lemma calculate_partial_correlation_degenerate:
  "dims2 p p C \<Longrightarrow> i < p \<Longrightarrow> j < p \<Longrightarrow> k < p \<Longrightarrow> dem C i j k \<le> 0 \<Longrightarrow>
   calculate_partial_correlation C i j k = Inl NotFinite"
  by (simp add: calculate_partial_correlation_def dem_def getitem2_dims Let_def)

lemma nondegenerateD:
  "nondegenerate C \<Longrightarrow> i < length C \<Longrightarrow> j < length C \<Longrightarrow> k < length C \<Longrightarrow>
   i \<noteq> j \<Longrightarrow> i \<noteq> k \<Longrightarrow> j \<noteq> k \<Longrightarrow> 0 < dem C i j k"
  unfolding nondegenerate_def list_all_iff by fastforce

lemma off_diagonal_below_one_nondegenerate:
  assumes "off_diagonal_below_one C"
  shows "nondegenerate C"
proof -
  have lt: "(C ! a ! b)\<^sup>2 < 1" if "a < length C" "b < length C" "a \<noteq> b" for a b
  proof -
    have "\<bar>C ! a ! b\<bar> < 1"
      using assms that unfolding off_diagonal_below_one_def list_all_iff by fastforce
    then show ?thesis
      by (simp add: abs_square_less_1)
  qed
  have "0 < dem C i j k" if "i < length C" "j < length C" "k < length C" "i \<noteq> k" "j \<noteq> k"
    for i j k
    using lt[of i k] lt[of k j] that by (simp add: dem_def)
  then show ?thesis
    unfolding nondegenerate_def list_all_iff by force
qed

lemma dims3_nth: "dims3 p T \<Longrightarrow> i < p \<Longrightarrow> j < p \<Longrightarrow> length (T ! i) = p \<and> length (T ! i ! j) = p"
  by (simp add: dims3_def dims2_def list_all_length)

lemma dims3_update:
  assumes "dims3 p T" "i < p" "j < p"
  shows "dims3 p (T[i := (T ! i)[j := (T ! i ! j)[k := v]]])"
proof -
  have "dims2 p p ((T ! i)[j := (T ! i ! j)[k := v]])"
    using assms by (simp add: dims3_def list_all_length dims2_update)
  then show ?thesis
    using assms by (auto simp: dims3_def list_all_length nth_list_update)
qed

lemma setitem3_writes:
  assumes "i < p" "j < p" "k < p" "G (i, j, k) = v"
  shows "writes (dn_inv h0 p) (tensor_at (length (arrays3 h0))) G {(i, j, k)}
           (\<lambda>h. setitem3 h (length (arrays3 h0)) i j k v)"
  unfolding writes_def
proof (intro allI impI)
  fix s assume inv: "dn_inv h0 p s"
  let ?a = "length (arrays3 h0)"
  let ?T = "arrays3 s ! ?a"
  let ?T' = "?T[i := (?T ! i)[j := (?T ! i ! j)[k := v]]]"
  let ?s' = "s\<lparr>arrays3 := (arrays3 s)[?a := ?T']\<rparr>"
  from inv have d: "dims3 p ?T" and len: "length (arrays3 s) = Suc ?a"
    by (simp_all add: dn_inv_def)
  have lens: "length ?T = p" "length (?T ! i) = p" "length (?T ! i ! j) = p"
    using d dims3_nth[OF d assms(1,2)] by (simp_all add: dims3_def)
  have eq: "setitem3 s ?a i j k v = Inr ?s'"
    using lens assms by (simp add: setitem3_def Let_def)
  have inv': "dn_inv h0 p ?s'"
    using inv dims3_update[OF d assms(1,2), of k v] len
    by (simp add: dn_inv_def take_update_cancel)
  have "\<forall>y. tensor_at ?a ?s' y = (if y \<in> {(i, j, k)} then G y else tensor_at ?a s y)"
  proof
    fix y :: "nat \<times> nat \<times> nat"
    obtain a b c where y: "y = (a, b, c)" by (cases y) auto
    have "?T' ! a ! b ! c = (if (a, b, c) = (i, j, k) then v else ?T ! a ! b ! c)"
      using lens assms(1,2,3)
      by (cases "a = i"; cases "b = j"; cases "c = k") (simp_all add: nth_list_update)
    then show "tensor_at ?a ?s' y = (if y \<in> {(i, j, k)} then G y else tensor_at ?a s y)"
      using y len assms(4) by (simp add: tensor_at_def)
  qed
  with eq inv' show "\<exists>s'. setitem3 s ?a i j k v = Inr s' \<and> dn_inv h0 p s' \<and>
      (\<forall>y. tensor_at ?a s' y = (if y \<in> {(i, j, k)} then G y else tensor_at ?a s y))"
    by blast
qed


lemma writes_cong:
  assumes "\<And>s. Inv s \<Longrightarrow> f s = g s" "writes Inv content G W g"
  shows "writes Inv content G W f"
  using assms unfolding writes_def by simp

lemma dn_loop1_body:
  assumes C: "arrays2 h0 ! corr = C" "dims2 p p C" and nd: "nondegenerate C"
    and ij: "i < p" "j < p" "k < p"
  shows "writes (dn_inv h0 p) (tensor_at (length (arrays3 h0))) (dependency_D C)
           (if i = j \<or> i = k \<or> j = k then {} else {(i, j, k)})
           (\<lambda>h. if i = j \<or> i = k \<or> j = k then Inr h
                else (case getitem2 (arrays2 h ! corr) i j of Inl e \<Rightarrow> Inl e | Inr cij \<Rightarrow>
                     (case calculate_partial_correlation (arrays2 h ! corr) i j k of
                        Inl e \<Rightarrow> Inl e
                      | Inr pc \<Rightarrow> setitem3 h (length (arrays3 h0)) i j k (cij - pc))))"
proof (cases "i = j \<or> i = k \<or> j = k")
  case True
  then show ?thesis
    using writes_skip[of "dn_inv h0 p" "tensor_at (length (arrays3 h0))" "dependency_D C"]
    by simp
next
  case False
  let ?v = "C ! i ! j - partial_corr_formula C i j k"
  have G: "dependency_D C (i, j, k) = ?v"
    using False by (simp add: dependency_D_def)
  have "length C = p"
    using C(2) by (simp add: dims2_def)
  then have pos: "0 < dem C i j k"
    using nondegenerateD[OF nd, of i j k] ij False by simp
  have "writes (dn_inv h0 p) (tensor_at (length (arrays3 h0))) (dependency_D C) {(i, j, k)}
      (\<lambda>h. case getitem2 (arrays2 h ! corr) i j of Inl e \<Rightarrow> Inl e | Inr cij \<Rightarrow>
                     (case calculate_partial_correlation (arrays2 h ! corr) i j k of
                        Inl e \<Rightarrow> Inl e
                      | Inr pc \<Rightarrow> setitem3 h (length (arrays3 h0)) i j k (cij - pc)))"
  proof (rule writes_cong[OF _ setitem3_writes[of i p j k "dependency_D C" ?v h0, OF ij G]])
    fix s assume "dn_inv h0 p s"
    then have "arrays2 s ! corr = C"
      using C(1) by (simp add: dn_inv_def)
    then show "(case getitem2 (arrays2 s ! corr) i j of Inl e \<Rightarrow> Inl e | Inr cij \<Rightarrow>
                     (case calculate_partial_correlation (arrays2 s ! corr) i j k of
                        Inl e \<Rightarrow> Inl e
                      | Inr pc \<Rightarrow> setitem3 s (length (arrays3 h0)) i j k (cij - pc)))
        = setitem3 s (length (arrays3 h0)) i j k ?v"
      using C(2) ij pos by (simp add: getitem2_dims calculate_partial_correlation_eq)
  qed
  with False show ?thesis by simp
qed

lemma dn_loop1:
  assumes C: "arrays2 h0 ! corr = C" "dims2 p p C" and nd: "nondegenerate C"
  shows "writes (dn_inv h0 p) (tensor_at (length (arrays3 h0))) (dependency_D C) (distinct_triples p)
           (for_each [0..<p] (\<lambda>i. for_each [0..<p] (\<lambda>j. for_each [0..<p] (\<lambda>k h.
                if i = j \<or> i = k \<or> j = k then Inr h
                else (case getitem2 (arrays2 h ! corr) i j of Inl e \<Rightarrow> Inl e | Inr cij \<Rightarrow>
                     (case calculate_partial_correlation (arrays2 h ! corr) i j k of
                        Inl e \<Rightarrow> Inl e
                      | Inr pc \<Rightarrow> setitem3 h (length (arrays3 h0)) i j k (cij - pc)))))))"
    (is "writes ?I ?c ?G _ (for_each _ (\<lambda>i. for_each _ (\<lambda>j. for_each _ (?body i j))))")
proof -
  let ?W = "\<lambda>i j k. if i = j \<or> i = k \<or> j = k then {} else {(i, j, k)}"
  have inner: "writes ?I ?c ?G (\<Union>k \<in> set [0..<p]. ?W i j k) (for_each [0..<p] (?body i j))"
    if "i < p" "j < p" for i j
  proof (rule writes_for_each)
    fix k assume "k \<in> set [0..<p]"
    then show "writes ?I ?c ?G (?W i j k) (?body i j k)"
      using dn_loop1_body[OF C nd that, of k] by simp
  qed
  have middle: "writes ?I ?c ?G (\<Union>j \<in> set [0..<p]. \<Union>k \<in> set [0..<p]. ?W i j k)
      (for_each [0..<p] (\<lambda>j. for_each [0..<p] (?body i j)))"
    if "i < p" for i
  proof (rule writes_for_each)
    fix j assume "j \<in> set [0..<p]"
    then show "writes ?I ?c ?G (\<Union>k \<in> set [0..<p]. ?W i j k) (for_each [0..<p] (?body i j))"
      using inner[OF that, of j] by simp
  qed
  have outer: "writes ?I ?c ?G (\<Union>i \<in> set [0..<p]. \<Union>j \<in> set [0..<p]. \<Union>k \<in> set [0..<p]. ?W i j k)
      (for_each [0..<p] (\<lambda>i. for_each [0..<p] (\<lambda>j. for_each [0..<p] (?body i j))))"
  proof (rule writes_for_each)
    fix i assume "i \<in> set [0..<p]"
    then show "writes ?I ?c ?G (\<Union>j \<in> set [0..<p]. \<Union>k \<in> set [0..<p]. ?W i j k)
      (for_each [0..<p] (\<lambda>j. for_each [0..<p] (?body i j)))"
      using middle[of i] by simp
  qed
  have "distinct_triples p = (\<Union>i \<in> set [0..<p]. \<Union>j \<in> set [0..<p]. \<Union>k \<in> set [0..<p]. ?W i j k)"
    by (auto simp: distinct_triples_def split: if_splits)
  with outer show ?thesis by (simp only:)
qed


lemma dn_loop2:
  "writes (dn_inv h0 p) (tensor_at (length (arrays3 h0))) (dependency_D C) (sentinel_triples p)
     (for_each [0..<p] (\<lambda>i. for_each [0..<p] (\<lambda>j h. setitem3 h (length (arrays3 h0)) i j j 1)))"
    (is "writes ?I ?c ?G _ (for_each _ (\<lambda>i. for_each _ (?body i)))")
proof -
  have inner: "writes ?I ?c ?G (\<Union>j \<in> set [0..<p]. {(i, j, j)}) (for_each [0..<p] (?body i))"
    if "i < p" for i
  proof (rule writes_for_each)
    fix j assume "j \<in> set [0..<p]"
    then show "writes ?I ?c ?G {(i, j, j)} (?body i j)"
      using setitem3_writes[of i p j j "dependency_D C" 1 h0] that
      by (simp add: dependency_D_def)
  qed
  have outer: "writes ?I ?c ?G (\<Union>i \<in> set [0..<p]. \<Union>j \<in> set [0..<p]. {(i, j, j)})
      (for_each [0..<p] (\<lambda>i. for_each [0..<p] (?body i)))"
  proof (rule writes_for_each)
    fix i assume "i \<in> set [0..<p]"
    then show "writes ?I ?c ?G (\<Union>j \<in> set [0..<p]. {(i, j, j)}) (for_each [0..<p] (?body i))"
      using inner[of i] by simp
  qed
  have "sentinel_triples p = (\<Union>i \<in> set [0..<p]. \<Union>j \<in> set [0..<p]. {(i, j, j)})"
    by (auto simp: sentinel_triples_def)
  with outer show ?thesis by (simp only:)
qed

lemma setitem2_writes:
  assumes "k < p" "i < p" "G (k, i) = v"
  shows "writes (out_inv h0 p Ts) (matrix_at (length (arrays2 h0))) G {(k, i)}
           (\<lambda>h. setitem2 h (length (arrays2 h0)) k i v)"
  unfolding writes_def
proof (intro allI impI)
  fix s assume inv: "out_inv h0 p Ts s"
  let ?a = "length (arrays2 h0)"
  let ?M = "arrays2 s ! ?a"
  let ?M' = "?M[k := (?M ! k)[i := v]]"
  let ?s' = "s\<lparr>arrays2 := (arrays2 s)[?a := ?M']\<rparr>"
  from inv have d: "dims2 p p ?M" and len: "length (arrays2 s) = Suc ?a"
    by (simp_all add: out_inv_def)
  have lens: "length ?M = p" "length (?M ! k) = p"
    using d assms(1) by (simp_all add: dims2_def list_all_length)
  have eq: "setitem2 s ?a k i v = Inr ?s'"
    using lens assms by (simp add: setitem2_def Let_def)
  have inv': "out_inv h0 p Ts ?s'"
    using inv dims2_update[OF d, of k i v] len
    by (simp add: out_inv_def take_update_cancel)
  have "\<forall>y. matrix_at ?a ?s' y = (if y \<in> {(k, i)} then G y else matrix_at ?a s y)"
  proof
    fix y :: "nat \<times> nat"
    obtain a b where y: "y = (a, b)" by (cases y) auto
    have "?M' ! a ! b = (if (a, b) = (k, i) then v else ?M ! a ! b)"
      using lens assms(1,2)
      by (cases "a = k"; cases "b = i") (simp_all add: nth_list_update)
    then show "matrix_at ?a ?s' y = (if y \<in> {(k, i)} then G y else matrix_at ?a s y)"
      using y len assms(3) by (simp add: matrix_at_def)
  qed
  with eq inv' show "\<exists>s'. setitem2 s ?a k i v = Inr s' \<and> out_inv h0 p Ts s' \<and>
      (\<forall>y. matrix_at ?a s' y = (if y \<in> {(k, i)} then G y else matrix_at ?a s y))"
    by blast
qed

lemma getitem_masked_eq:
  assumes "dims3 p T" "i < p" "k < p"
  shows "getitem_masked T i (map (\<lambda>x. i \<noteq> x) [0..<p]) k
     = Inr (map (\<lambda>j. T ! i ! j ! k) (filter (\<lambda>j. i \<noteq> j) [0..<p]))"
proof -
  have "length (T ! i) = p" "list_all (\<lambda>row. k < length row) (T ! i)" "length T = p"
    using assms by (simp_all add: dims3_def dims2_def list_all_length)
  moreover have "filter (\<lambda>j. map (\<lambda>x. i \<noteq> x) [0..<p] ! j) [0..<p] = filter (\<lambda>j. i \<noteq> j) [0..<p]"
    by (rule filter_cong) auto
  ultimately show ?thesis
    using assms(2) by (simp add: getitem_masked_def)
qed

lemma dn_loop3:
  assumes T: "length Ts = Suc D" "dims3 p (Ts ! D)"
  shows "writes (out_inv h0 p Ts) (matrix_at (length (arrays2 h0))) (masked_mean p (Ts ! D))
           {(k, i). i < p \<and> k < p \<and> i \<noteq> k}
           (for_each [0..<p] (\<lambda>i. for_each [0..<p] (\<lambda>k h.
                if i = k then Inr h
                else (case getitem_masked (arrays3 h ! D) i (map (\<lambda>x. i \<noteq> x) [0..<p]) k of
                        Inl e \<Rightarrow> Inl e
                      | Inr xs \<Rightarrow>
                          setitem2 h (length (arrays2 h0)) k i (sum_list xs / (real p - 1))))))"
    (is "writes ?I ?c ?G _ (for_each _ (\<lambda>i. for_each _ (?body i)))")
proof -
  let ?W = "\<lambda>i k. if i = k then {} else {(k, i)}"
  have step: "writes ?I ?c ?G (?W i k) (?body i k)" if "i < p" "k < p" for i k
  proof (cases "i = k")
    case True
    then show ?thesis
      using writes_skip[of ?I ?c ?G] by simp
  next
    case False
    let ?v = "sum_list (map (\<lambda>j. Ts ! D ! i ! j ! k) (filter (\<lambda>j. i \<noteq> j) [0..<p])) / (real p - 1)"
    have G: "?G (k, i) = ?v"
      by (simp add: masked_mean_def)
    have "writes ?I ?c ?G {(k, i)} (?body i k)"
    proof (rule writes_cong[OF _ setitem2_writes[of k p i ?G ?v h0 Ts, OF that(2,1) G]])
      fix s assume "out_inv h0 p Ts s"
      then have "arrays3 s ! D = Ts ! D"
        by (simp add: out_inv_def)
      then show "?body i k s = setitem2 s (length (arrays2 h0)) k i ?v"
        using False getitem_masked_eq[OF T(2) that] by simp
    qed
    with False show ?thesis by simp
  qed
  have inner: "writes ?I ?c ?G (\<Union>k \<in> set [0..<p]. ?W i k) (for_each [0..<p] (?body i))"
    if "i < p" for i
  proof (rule writes_for_each)
    fix k assume "k \<in> set [0..<p]"
    then show "writes ?I ?c ?G (?W i k) (?body i k)"
      using step[OF that, of k] by simp
  qed
  have outer: "writes ?I ?c ?G (\<Union>i \<in> set [0..<p]. \<Union>k \<in> set [0..<p]. ?W i k)
      (for_each [0..<p] (\<lambda>i. for_each [0..<p] (?body i)))"
  proof (rule writes_for_each)
    fix i assume "i \<in> set [0..<p]"
    then show "writes ?I ?c ?G (\<Union>k \<in> set [0..<p]. ?W i k) (for_each [0..<p] (?body i))"
      using inner[of i] by simp
  qed
  have "{(k, i). i < p \<and> k < p \<and> i \<noteq> k} = (\<Union>i \<in> set [0..<p]. \<Union>k \<in> set [0..<p]. ?W i k)"
    by (auto split: if_splits)
  with outer show ?thesis by (simp only:)
qed


lemma dims3_zeros3: "dims3 p (zeros3 p p p)"
  by (simp add: dims3_def dims2_def zeros3_def list_all_length)

lemma writesD:
  assumes "writes Inv content G W f" "Inv s"
  obtains s' where "f s = Inr s'" "Inv s'" "\<And>y. content s' y = (if y \<in> W then G y else content s y)"
  using assms unfolding writes_def by blast

lemma dependency_network_returns:
  assumes C: "arrays2 h ! corr = C" "dims2 p p C" and nd: "nondegenerate C"
  shows "\<exists>h'. dependency_network h corr = Inr (length (arrays2 h), h') \<and>
           preserves h h' \<and>
           dims2 p p (arrays2 h' ! length (arrays2 h)) \<and>
           (\<forall>k<p. \<forall>i<p. k \<noteq> i \<longrightarrow>
              arrays2 h' ! length (arrays2 h) ! k ! i =
                sum_list (map (\<lambda>j. dependency_D C (i, j, k)) (filter (\<lambda>j. i \<noteq> j) [0..<p]))
                  / (real p - 1))"
proof -
  let ?D = "length (arrays3 h)"
  let ?dn = "length (arrays2 h)"
  let ?h1 = "h\<lparr>arrays3 := arrays3 h @ [zeros3 p p p]\<rparr>"
  have p: "length (arrays2 h ! corr) = p"
    using C by (simp add: dims2_def)
  have inv1: "dn_inv h p ?h1"
    by (simp add: dn_inv_def dims3_zeros3)
  from writesD[OF dn_loop1[OF C nd] inv1] obtain h2 where
    l1: "for_each [0..<p] (\<lambda>i. for_each [0..<p] (\<lambda>j. for_each [0..<p] (\<lambda>k h'.
                if i = j \<or> i = k \<or> j = k then Inr h'
                else (case getitem2 (arrays2 h' ! corr) i j of Inl e \<Rightarrow> Inl e | Inr cij \<Rightarrow>
                     (case calculate_partial_correlation (arrays2 h' ! corr) i j k of
                        Inl e \<Rightarrow> Inl e
                      | Inr pc \<Rightarrow> setitem3 h' ?D i j k (cij - pc)))))) ?h1 = Inr h2"
    and inv2: "dn_inv h p h2"
    and c2: "\<And>y. tensor_at ?D h2 y
        = (if y \<in> distinct_triples p then dependency_D C y else tensor_at ?D ?h1 y)"
    by blast
  from writesD[OF dn_loop2 inv2] obtain h3 where
    l2: "for_each [0..<p] (\<lambda>i. for_each [0..<p] (\<lambda>j h'. setitem3 h' ?D i j j 1)) h2 = Inr h3"
    and inv3: "dn_inv h p h3"
    and c3: "\<And>y. tensor_at ?D h3 y
        = (if y \<in> sentinel_triples p then dependency_D C y else tensor_at ?D h2 y)"
    by blast
  have a3: "arrays2 h3 = arrays2 h" and t3: "length (arrays3 h3) = Suc ?D"
    and d3: "dims3 p (arrays3 h3 ! ?D)"
    and f3: "take ?D (arrays3 h3) = arrays3 h"
    using inv3 by (simp_all add: dn_inv_def)
  let ?h4 = "h3\<lparr>arrays2 := arrays2 h3 @ [zeros2 p p]\<rparr>"
  have inv4: "out_inv h p (arrays3 h3) ?h4"
    by (simp add: out_inv_def a3 dims2_zeros2)
  from writesD[OF dn_loop3[OF t3 d3] inv4] obtain h5 where
    l3: "for_each [0..<p] (\<lambda>i. for_each [0..<p] (\<lambda>k h'.
                if i = k then Inr h'
                else (case getitem_masked (arrays3 h' ! ?D) i (map (\<lambda>x. i \<noteq> x) [0..<p]) k of
                        Inl e \<Rightarrow> Inl e
                      | Inr xs \<Rightarrow> setitem2 h' ?dn k i (sum_list xs / (real p - 1))))) ?h4 = Inr h5"
    and inv5: "out_inv h p (arrays3 h3) h5"
    and c5: "\<And>y. matrix_at ?dn h5 y
        = (if y \<in> {(k, i). i < p \<and> k < p \<and> i \<noteq> k} then masked_mean p (arrays3 h3 ! ?D) y
           else matrix_at ?dn ?h4 y)"
    by blast
  have ret: "dependency_network h corr = Inr (?dn, h5)"
    using l1 l2 l3
    by (simp add: dependency_network_def alloc3_def alloc2_def Let_def p a3
        cong: sum.case_cong if_cong)
  have pres: "preserves h h5"
    using inv5 f3 by (simp add: preserves_def out_inv_def)
  have dims: "dims2 p p (arrays2 h5 ! ?dn)"
    using inv5 by (simp add: out_inv_def)
  have vals: "arrays2 h5 ! ?dn ! k ! i =
      sum_list (map (\<lambda>j. dependency_D C (i, j, k)) (filter (\<lambda>j. i \<noteq> j) [0..<p])) / (real p - 1)"
    if "k < p" "i < p" "k \<noteq> i" for k i
  proof -
    have "arrays2 h5 ! ?dn ! k ! i = masked_mean p (arrays3 h3 ! ?D) (k, i)"
      using c5[of "(k, i)"] that by (simp add: matrix_at_def)
    moreover have "map (\<lambda>j. arrays3 h3 ! ?D ! i ! j ! k) (filter (\<lambda>j. i \<noteq> j) [0..<p])
        = map (\<lambda>j. dependency_D C (i, j, k)) (filter (\<lambda>j. i \<noteq> j) [0..<p])"
    proof (rule map_cong[OF refl])
      fix j assume "j \<in> set (filter (\<lambda>j. i \<noteq> j) [0..<p])"
      then have j: "j < p" "i \<noteq> j" by auto
      have "(i, j, k) \<in> sentinel_triples p \<or> (i, j, k) \<in> distinct_triples p"
        using j that by (auto simp: sentinel_triples_def distinct_triples_def)
      then have "tensor_at ?D h3 (i, j, k) = dependency_D C (i, j, k)"
        using c3[of "(i, j, k)"] c2[of "(i, j, k)"] by auto
      then show "arrays3 h3 ! ?D ! i ! j ! k = dependency_D C (i, j, k)"
        by (simp add: tensor_at_def)
    qed
    ultimately show ?thesis
      by (simp add: masked_mean_def)
  qed
  from ret pres dims vals show ?thesis by blast
qed

lemma trio_inverse_entries:
  fixes a b c :: real
  assumes "p00 + a * p10 + b * p20 = 1" "a * p00 + p10 + c * p20 = 0" "b * p00 + c * p10 + p20 = 0"
    and "p01 + a * p11 + b * p21 = 0" "a * p01 + p11 + c * p21 = 1" "b * p01 + c * p11 + p21 = 0"
  shows "(1 + 2 * a * b * c - a\<^sup>2 - b\<^sup>2 - c\<^sup>2) * p00 = 1 - c\<^sup>2"
    and "(1 + 2 * a * b * c - a\<^sup>2 - b\<^sup>2 - c\<^sup>2) * p11 = 1 - b\<^sup>2"
    and "(1 + 2 * a * b * c - a\<^sup>2 - b\<^sup>2 - c\<^sup>2) * p01 = - (a - b * c)"
proof -
  have "(1 + 2 * a * b * c - a\<^sup>2 - b\<^sup>2 - c\<^sup>2) * p00
      = (1 - c\<^sup>2) * (p00 + a * p10 + b * p20) - (a - b * c) * (a * p00 + p10 + c * p20)
        - (b - a * c) * (b * p00 + c * p10 + p20)"
    by (simp add: algebra_simps power2_eq_square)
  then show "(1 + 2 * a * b * c - a\<^sup>2 - b\<^sup>2 - c\<^sup>2) * p00 = 1 - c\<^sup>2"
    using assms(1,2,3) by simp
  have "(1 + 2 * a * b * c - a\<^sup>2 - b\<^sup>2 - c\<^sup>2) * p11
      = - (a - b * c) * (p01 + a * p11 + b * p21) + (1 - b\<^sup>2) * (a * p01 + p11 + c * p21)
        - (c - a * b) * (b * p01 + c * p11 + p21)"
    by (simp add: algebra_simps power2_eq_square)
  then show "(1 + 2 * a * b * c - a\<^sup>2 - b\<^sup>2 - c\<^sup>2) * p11 = 1 - b\<^sup>2"
    using assms(4,5,6) by simp
  have "(1 + 2 * a * b * c - a\<^sup>2 - b\<^sup>2 - c\<^sup>2) * p01
      = (1 - c\<^sup>2) * (p01 + a * p11 + b * p21) - (a - b * c) * (a * p01 + p11 + c * p21)
        - (b - a * c) * (b * p01 + c * p11 + p21)"
    by (simp add: algebra_simps power2_eq_square)
  then show "(1 + 2 * a * b * c - a\<^sup>2 - b\<^sup>2 - c\<^sup>2) * p01 = - (a - b * c)"
    using assms(4,5,6) by simp
qed

lemma precision_ratio:
  fixes a b c d :: real
  assumes "0 < d" "d * p00 = 1 - c\<^sup>2" "d * p11 = 1 - b\<^sup>2" "d * p01 = - (a - b * c)"
  shows "- p01 / sqrt (p00 * p11) = (a - b * c) / sqrt ((1 - b\<^sup>2) * (1 - c\<^sup>2))"
proof -
  have p: "p00 = (1 - c\<^sup>2) / d" "p11 = (1 - b\<^sup>2) / d" "p01 = - (a - b * c) / d"
    using assms by (simp_all add: field_simps)
  have "p00 * p11 = ((1 - b\<^sup>2) * (1 - c\<^sup>2)) / d\<^sup>2"
    by (simp add: p power2_eq_square)
  then have "sqrt (p00 * p11) = sqrt ((1 - b\<^sup>2) * (1 - c\<^sup>2)) / d"
    using assms(1) by (simp add: real_sqrt_divide)
  then show ?thesis
    using assms(1) by (simp add: p)
qed


lemma list3: "length xs = 3 \<Longrightarrow> xs = [xs ! 0, xs ! 1, xs ! 2]"
  by (auto simp: numeral_3_eq_3 length_Suc_conv)

lemma dims2_33:
  assumes "dims2 3 3 P"
  shows "P = [[P ! 0 ! 0, P ! 0 ! 1, P ! 0 ! 2],
              [P ! 1 ! 0, P ! 1 ! 1, P ! 1 ! 2],
              [P ! 2 ! 0, P ! 2 ! 1, P ! 2 ! 2]]"
proof -
  from assms have "length P = 3" "length (P ! 0) = 3" "length (P ! 1) = 3" "length (P ! 2) = 3"
    by (simp_all add: dims2_def list_all_length)
  then show ?thesis
    using list3[of P] list3[of "P ! 0"] list3[of "P ! 1"] list3[of "P ! 2"] by metis
qed

lemma upt3: "[0..<3] = [0, 1, 2]"
  by (simp add: upt_rec)

lemma is_inverse_33:
  assumes "is_inverse [[m00, m01, m02], [m10, m11, m12], [m20, m21, m22]] P"
  shows "m00 * P ! 0 ! 0 + m01 * P ! 1 ! 0 + m02 * P ! 2 ! 0 = 1"
    and "m10 * P ! 0 ! 0 + m11 * P ! 1 ! 0 + m12 * P ! 2 ! 0 = 0"
    and "m20 * P ! 0 ! 0 + m21 * P ! 1 ! 0 + m22 * P ! 2 ! 0 = 0"
    and "m00 * P ! 0 ! 1 + m01 * P ! 1 ! 1 + m02 * P ! 2 ! 1 = 0"
    and "m10 * P ! 0 ! 1 + m11 * P ! 1 ! 1 + m12 * P ! 2 ! 1 = 1"
    and "m20 * P ! 0 ! 1 + m21 * P ! 1 ! 1 + m22 * P ! 2 ! 1 = 0"
proof -
  from assms have d: "dims2 3 3 P"
    and m: "mat_mult [[m00, m01, m02], [m10, m11, m12], [m20, m21, m22]] P = identity_matrix 3"
    by (simp_all add: is_inverse_def numeral_3_eq_3)
  have nc: "(case P of [] \<Rightarrow> 0 | r # rs \<Rightarrow> length r) = 3" and lp: "length P = 3"
    using d by (cases P; auto simp: dims2_def)+
  from m show "m00 * P ! 0 ! 0 + m01 * P ! 1 ! 0 + m02 * P ! 2 ! 0 = 1"
    and "m10 * P ! 0 ! 0 + m11 * P ! 1 ! 0 + m12 * P ! 2 ! 0 = 0"
    and "m20 * P ! 0 ! 0 + m21 * P ! 1 ! 0 + m22 * P ! 2 ! 0 = 0"
    and "m00 * P ! 0 ! 1 + m01 * P ! 1 ! 1 + m02 * P ! 2 ! 1 = 0"
    and "m10 * P ! 0 ! 1 + m11 * P ! 1 ! 1 + m12 * P ! 2 ! 1 = 1"
    and "m20 * P ! 0 ! 1 + m21 * P ! 1 ! 1 + m22 * P ! 2 ! 1 = 0"
    by (simp_all add: mat_mult_def identity_matrix_def nc lp upt3)
qed

lemma trio_partial_correlation:
  assumes "is_inverse (trio C i j k) P" "0 < det3 (trio C i j k)"
    and "C ! i ! i = 1" "C ! j ! j = 1" "C ! k ! k = 1"
    and "C ! j ! i = C ! i ! j" "C ! k ! i = C ! i ! k" "C ! k ! j = C ! j ! k"
  shows "precision_formula P 0 1 = partial_corr_formula C i j k"
proof -
  let ?a = "C ! i ! j" and ?b = "C ! i ! k" and ?c = "C ! j ! k"
  have M: "trio C i j k = [[1, ?a, ?b], [?a, 1, ?c], [?b, ?c, 1]]"
    using assms(3-8) by (simp add: trio_def)
  have det: "det3 (trio C i j k) = 1 + 2 * ?a * ?b * ?c - ?a\<^sup>2 - ?b\<^sup>2 - ?c\<^sup>2"
    unfolding M by (simp add: det3_def algebra_simps power2_eq_square)
  note eqs = is_inverse_33[OF assms(1)[unfolded M]]
  note ent = trio_inverse_entries[of "P ! 0 ! 0" ?a "P ! 1 ! 0" ?b "P ! 2 ! 0" ?c
      "P ! 0 ! 1" "P ! 1 ! 1" "P ! 2 ! 1"]
  have e: "det3 (trio C i j k) * P ! 0 ! 0 = 1 - ?c\<^sup>2"
    "det3 (trio C i j k) * P ! 1 ! 1 = 1 - ?b\<^sup>2"
    "det3 (trio C i j k) * P ! 0 ! 1 = - (?a - ?b * ?c)"
    unfolding det using ent eqs by simp_all
  have "- (P ! 0 ! 1) / sqrt (P ! 0 ! 0 * P ! 1 ! 1)
      = (?a - ?b * ?c) / sqrt ((1 - ?b\<^sup>2) * (1 - ?c\<^sup>2))"
    by (rule precision_ratio[OF assms(2) e])
  then show ?thesis
    using assms(8) by (simp add: precision_formula_def partial_corr_formula_def dem_def)
qed


text \<open>
  C9, as claimed: for every correlation matrix the entries of the result are the
  means of \<open>D\<close>. \<open>dup_corr\<close> is square and symmetric with unit diagonal, the
  correlation matrix of three variables of which the first two coincide. For
  \<open>partialcorr(0, 2 | 1)\<close> the number under the root is
  \<open>(1 - C[0,1]\<^sup>2) (1 - C[1,2]\<^sup>2) = 0\<close>: the code divides by zero, \<open>D[0, 2, 1]\<close> is
  not a number, and the mean \<open>result[1, 0]\<close> that adds it up is not one either.
\<close>

theorem dependency_network_degenerate_counterexample:
  "is_square dup_corr \<and> is_symmetric dup_corr \<and> unit_diagonal dup_corr \<and>
   calculate_partial_correlation dup_corr 0 2 1 = Inl NotFinite \<and>
   dependency_network dup_heap 0 = Inl NotFinite"
  by (simp add: dup_corr_def dup_heap_def is_square_def is_symmetric_def unit_diagonal_def
      getitem2_def upt3 calculate_partial_correlation_def dependency_network_def alloc3_def
      zeros3_def setitem3_def Let_def numeral_3_eq_3)

text \<open>
  C9, amended. For a square matrix \<open>C\<close> of \<open>p\<close> rows in which the number under the
  root is positive at every trio of pairwise distinct variables (as it is when every
  entry off the diagonal lies strictly between \<open>-1\<close> and \<open>1\<close>),
  \<open>dependency_network\<close> returns a matrix
  whose entry \<open>[k, i]\<close>, for \<open>k \<noteq> i\<close>, is \<open>1 / (p - 1)\<close> times the sum over
  \<open>j \<noteq> i\<close> of \<open>D[i, j, k]\<close>, where \<open>D[i, j, j] = 1\<close> and otherwise
  \<open>D[i, j, k] = C[i, j] - partialcorr(i, j | k)\<close>; the sum reads
  \<open>partialcorr\<close> at pairwise distinct \<open>i, j, k\<close> only. The partial correlation the code
  computes is that of the partial correlation transform on the trio: for a symmetric
  \<open>C\<close> with unit diagonal and a trio of positive determinant (an invertible correlation
  matrix of three variables, which are then pairwise distinct), it is the entry
  \<open>[0, 1]\<close> of the precision formula on the inverse of the trio's matrix. Under the
  hypothesis every root and every quotient in the statement is taken of a positive
  number.
\<close>

theorem dependency_network_formula:
  assumes "corr < length (arrays2 h)" and "is_square (arrays2 h ! corr)"
    and "nondegenerate (arrays2 h ! corr)"
  shows "(\<exists>dn h'. dependency_network h corr = Inr (dn, h') \<and>
            (\<forall>k<length (arrays2 h ! corr). \<forall>i<length (arrays2 h ! corr). k \<noteq> i \<longrightarrow>
               arrays2 h' ! dn ! k ! i =
                 (1 / (real (length (arrays2 h ! corr)) - 1)) *
                 (\<Sum>j\<leftarrow>filter (\<lambda>j. i \<noteq> j) [0..<length (arrays2 h ! corr)].
                     dependency_D (arrays2 h ! corr) (i, j, k)))) \<and>
         (\<forall>i j k P. i < length (arrays2 h ! corr) \<and> j < length (arrays2 h ! corr) \<and>
              k < length (arrays2 h ! corr) \<and>
              is_symmetric (arrays2 h ! corr) \<and> unit_diagonal (arrays2 h ! corr) \<and>
              is_inverse (trio (arrays2 h ! corr) i j k) P \<and>
              0 < det3 (trio (arrays2 h ! corr) i j k) \<longrightarrow>
              partial_corr_formula (arrays2 h ! corr) i j k = precision_formula P 0 1)"
proof (intro conjI allI impI)
  let ?C = "arrays2 h ! corr"
  let ?p = "length ?C"
  have d: "dims2 ?p ?p ?C"
    using assms(2) by (simp add: is_square_dims2)
  from dependency_network_returns[OF refl d assms(3)] obtain h' where
    r: "dependency_network h corr = Inr (length (arrays2 h), h')"
    and v: "\<And>k i. k < ?p \<Longrightarrow> i < ?p \<Longrightarrow> k \<noteq> i \<Longrightarrow>
        arrays2 h' ! length (arrays2 h) ! k ! i =
          sum_list (map (\<lambda>j. dependency_D ?C (i, j, k)) (filter (\<lambda>j. i \<noteq> j) [0..<?p]))
            / (real ?p - 1)"
    by blast
  show "\<exists>dn h'. dependency_network h corr = Inr (dn, h') \<and>
            (\<forall>k<?p. \<forall>i<?p. k \<noteq> i \<longrightarrow>
               arrays2 h' ! dn ! k ! i =
                 (1 / (real ?p - 1)) *
                 (\<Sum>j\<leftarrow>filter (\<lambda>j. i \<noteq> j) [0..<?p]. dependency_D ?C (i, j, k)))"
    using r v by auto
next
  fix i j k P
  let ?C = "arrays2 h ! corr"
  let ?p = "length ?C"
  assume a: "i < ?p \<and> j < ?p \<and> k < ?p \<and> is_symmetric ?C \<and> unit_diagonal ?C \<and>
      is_inverse (trio ?C i j k) P \<and> 0 < det3 (trio ?C i j k)"
  then have sym: "\<And>x y. x < ?p \<Longrightarrow> y < ?p \<Longrightarrow> ?C ! x ! y = ?C ! y ! x"
    by (simp add: is_symmetric_def list_all_iff)
  have diag: "\<And>x. x < ?p \<Longrightarrow> ?C ! x ! x = 1"
    using a by (auto simp: unit_diagonal_def list_all_iff getitem2_def split: if_splits)
  show "partial_corr_formula ?C i j k = precision_formula P 0 1"
    using trio_partial_correlation[of ?C i j k P] a sym[of j i] sym[of k i] sym[of k j] diag
    by simp
qed

lemma setitem2_preserves:
  "setitem2 s a i j v = Inr s' \<Longrightarrow> preserves h s \<Longrightarrow> length (arrays2 h) \<le> a \<Longrightarrow> preserves h s'"
  by (auto simp: setitem2_def preserves_def Let_def take_update_cancel split: if_splits)

lemma setitem3_preserves:
  "setitem3 s a i j k v = Inr s' \<Longrightarrow> preserves h s \<Longrightarrow> length (arrays3 h) \<le> a \<Longrightarrow> preserves h s'"
  by (auto simp: setitem3_def preserves_def Let_def take_update_cancel split: if_splits)

lemma take_length_le:
  assumes "take (length ys) xs = ys"
  shows "length ys \<le> length xs"
proof -
  have "length (take (length ys) xs) = length ys"
    using assms by simp
  then show ?thesis by simp
qed

lemma preserves_length:
  "preserves h s \<Longrightarrow> length (arrays2 h) \<le> length (arrays2 s) \<and> length (arrays3 h) \<le> length (arrays3 s)"
  by (simp add: preserves_def take_length_le)

theorem dependency_network_formula_witness:
  "(\<exists>dn h'. dependency_network small_heap 0 = Inr (dn, h') \<and>
       arrays2 h' ! dn ! 1 ! 0 =
         (1 / (real (length small_corr) - 1)) *
         (\<Sum>j\<leftarrow>filter (\<lambda>j. 0 \<noteq> j) [0..<length small_corr]. dependency_D small_corr (0, j, 1))) \<and>
   partial_corr_formula small_corr 0 1 2 = precision_formula trio_inverse 0 1"
proof -
  have sq: "is_square (arrays2 small_heap ! 0)" and len: "0 < length (arrays2 small_heap)"
    and C: "arrays2 small_heap ! 0 = small_corr" and p: "length small_corr = 3"
    by (simp_all add: small_heap_def small_corr_def is_square_def)
  have nd: "nondegenerate (arrays2 small_heap ! 0)"
    by (simp add: small_heap_def small_corr_def nondegenerate_def dem_def upt3 power2_eq_square)
  note inst = dependency_network_formula[OF len sq nd, unfolded C]
  from inst obtain dn h' where
    r: "dependency_network small_heap 0 = Inr (dn, h')"
    and v: "\<forall>k<length small_corr. \<forall>i<length small_corr. k \<noteq> i \<longrightarrow>
               arrays2 h' ! dn ! k ! i =
                 (1 / (real (length small_corr) - 1)) *
                 (\<Sum>j\<leftarrow>filter (\<lambda>j. i \<noteq> j) [0..<length small_corr]. dependency_D small_corr (i, j, k))"
    by blast
  have v10: "arrays2 h' ! dn ! 1 ! 0 =
         (1 / (real (length small_corr) - 1)) *
         (\<Sum>j\<leftarrow>filter (\<lambda>j. 0 \<noteq> j) [0..<length small_corr]. dependency_D small_corr (0, j, 1))"
    using v[rule_format, of 1 0] p by simp
  have hyp: "0 < length small_corr \<and> 1 < length small_corr \<and> 2 < length small_corr \<and>
      is_symmetric small_corr \<and> unit_diagonal small_corr \<and>
      is_inverse (trio small_corr 0 1 2) trio_inverse \<and> 0 < det3 (trio small_corr 0 1 2)"
    by (simp add: small_corr_def is_symmetric_def unit_diagonal_def getitem2_def upt3
        is_inverse_def trio_def trio_inverse_def det3_def dims2_def mat_mult_def identity_matrix_def)
  have "partial_corr_formula small_corr 0 1 2 = precision_formula trio_inverse 0 1"
    using inst hyp by blast
  with r v10 show ?thesis by blast
qed

subsection \<open>PMFG\<close>

text \<open>
  C3, as claimed: for every correlation matrix, \<open>pmfg\<close> returns a planar graph with
  at most \<open>3p - 6\<close> edges. For two variables the result is the single edge, which is
  planar, and \<open>3p - 6 = 0\<close>: the loop only stops when the count equals \<open>3 (p - 2)\<close>.
\<close>

theorem pmfg_edge_bound_counterexample:
  "pmfg small_graph_planarity [[1, 1/2], [1/2, 1]] = Inr \<lparr>nodes = [0, 1], edges = [((1, 0), 1/2)]\<rparr> \<and>
   \<not> int (number_of_edges \<lparr>nodes = [0, 1], edges = [((1, 0), 1/2)]\<rparr>) \<le> 3 * int (length [[1, 1/2], [1/2, 1 :: real]]) - 6"
  by code_simp

lemma concat_square_length: "is_square C \<Longrightarrow> length (concat C) = length C * length C"
proof -
  assume "is_square C"
  then have "map length C = replicate (length C) (length C)"
    by (auto simp: is_square_def list_all_iff intro!: replicate_eqI)
  then show ?thesis
    by (simp add: length_concat sum_list_replicate)
qed

lemma getitem2_square: "is_square C \<Longrightarrow> i < length C \<Longrightarrow> j < length C \<Longrightarrow> getitem2 C i j = Inr (C ! i ! j)"
  by (simp add: getitem2_def is_square_def list_all_length)

lemma unravel_index_ok:
  "v < p * p \<Longrightarrow> unravel_index v p = Inr (v div p, v mod p) \<and> v div p < p \<and> v mod p < p"
  by (cases "p = 0") (auto simp: unravel_index_def less_mult_imp_div_less)

lemma add_node_present: "v \<in> set (nodes G) \<Longrightarrow> add_node G v = G"
  by (simp add: add_node_def)

lemma add_edge_present:
  assumes "u \<in> set (nodes G)" "v \<in> set (nodes G)" "has_edge G u v"
  shows "nodes (add_edge G u v w) = nodes G"
    and "map fst (edges (add_edge G u v w)) = map fst (edges G)"
  using assms
  by (auto simp: add_edge_def add_node_present Let_def split: prod.splits)

lemma add_edge_absent:
  assumes "u \<in> set (nodes G)" "v \<in> set (nodes G)" "\<not> has_edge G u v"
  shows "add_edge G u v w = G\<lparr>edges := edges G @ [((u, v), w)]\<rparr>"
    and "remove_edge (add_edge G u v w) u v = G"
proof -
  show eq: "add_edge G u v w = G\<lparr>edges := edges G @ [((u, v), w)]\<rparr>"
    using assms by (simp add: add_edge_def add_node_present)
  have "filter (\<lambda>(e, w). \<not> same_edge u v e) (edges G) = edges G"
    using assms(3) by (auto simp: has_edge_def list_ex_iff filter_id_conv)
  then show "remove_edge (add_edge G u v w) u v = G"
    by (simp add: eq remove_edge_def same_edge_def)
qed

lemma number_of_edges_add_edge:
  "u \<in> set (nodes G) \<Longrightarrow> v \<in> set (nodes G) \<Longrightarrow>
   number_of_edges (add_edge G u v w) \<le> Suc (number_of_edges G)"
  by (simp add: add_edge_def add_node_present number_of_edges_def)


lemma pmfg_step_inv:
  assumes sq: "is_square corr" "length corr = p" and v: "v < p * p"
    and inv: "pmfg_inv is_planar p G"
  shows "\<exists>G' stop. pmfg_step is_planar corr p v G = Inr (G', stop) \<and>
           set [0..<p] \<subseteq> set (nodes G') \<and> check_planarity is_planar G' \<and>
           int (number_of_edges G') \<le> 3 * (int p - 2) \<and>
           (\<not> stop \<longrightarrow> pmfg_inv is_planar p G')"
proof -
  let ?i = "v div p" and ?j = "v mod p"
  from unravel_index_ok[OF v] have u: "unravel_index v p = Inr (?i, ?j)" and ij: "?i < p" "?j < p"
    by simp_all
  from inv have nodes: "set [0..<p] \<subseteq> set (nodes G)" and pl: "check_planarity is_planar G"
    and cnt: "int (number_of_edges G) < 3 * (int p - 2)"
    by (simp_all add: pmfg_inv_def)
  have mem: "?i \<in> set (nodes G)" "?j \<in> set (nodes G)"
    using nodes ij by auto
  show ?thesis
  proof (cases "?i = ?j")
    case True
    then show ?thesis
      using u inv nodes pl cnt
      by (intro exI[of _ G] exI[of _ False]) (simp add: pmfg_step_def)
  next
    case False
    let ?w = "corr ! ?i ! ?j"
    let ?G1 = "add_edge G ?i ?j ?w"
    let ?G2 = "if \<not> check_planarity is_planar ?G1 then remove_edge ?G1 ?i ?j else ?G1"
    have g: "getitem2 corr ?i ?j = Inr ?w"
      using sq ij by (simp add: getitem2_square)
    have step: "pmfg_step is_planar corr p v G
        = Inr (?G2, int (number_of_edges ?G2) = 3 * (int p - 2))"
      using u g False by (simp add: pmfg_step_def Let_def)
    have n1: "nodes ?G1 = nodes G"
      using mem by (simp add: add_edge_def add_node_present Let_def)
    have G2: "set [0..<p] \<subseteq> set (nodes ?G2) \<and> check_planarity is_planar ?G2 \<and>
        number_of_edges ?G2 \<le> Suc (number_of_edges G)"
    proof (cases "check_planarity is_planar ?G1")
      case True
      then show ?thesis
        using nodes n1 number_of_edges_add_edge[OF mem] by simp
    next
      case notplanar: False
      have "\<not> has_edge G ?i ?j"
      proof
        assume "has_edge G ?i ?j"
        then have "check_planarity is_planar ?G1 = check_planarity is_planar G"
          using add_edge_present[OF mem] by (simp add: check_planarity_def)
        with pl notplanar show False by simp
      qed
      then have "remove_edge ?G1 ?i ?j = G"
        using add_edge_absent(2)[OF mem] by simp
      with notplanar nodes pl show ?thesis by simp
    qed
    then have "int (number_of_edges ?G2) \<le> 3 * (int p - 2)"
      using cnt by linarith
    with step G2 show ?thesis
      by (auto simp: pmfg_inv_def)
  qed
qed

lemma pmfg_loop_inv:
  assumes sq: "is_square corr" "length corr = p"
  shows "\<forall>v \<in> set vals. v < p * p \<Longrightarrow> pmfg_inv is_planar p G \<Longrightarrow>
         \<exists>G'. pmfg_loop is_planar corr p vals G = Inr G' \<and>
           set [0..<p] \<subseteq> set (nodes G') \<and> check_planarity is_planar G' \<and>
           int (number_of_edges G') \<le> 3 * (int p - 2)"
proof (induction vals arbitrary: G)
  case Nil
  then show ?case by (simp add: pmfg_inv_def)
next
  case (Cons v vals)
  from Cons.prems have v: "v < p * p" by simp
  from pmfg_step_inv[OF sq v Cons.prems(2)] obtain G' stop where
    st: "pmfg_step is_planar corr p v G = Inr (G', stop)"
    and G': "set [0..<p] \<subseteq> set (nodes G')" "check_planarity is_planar G'"
      "int (number_of_edges G') \<le> 3 * (int p - 2)"
    and cont: "\<not> stop \<longrightarrow> pmfg_inv is_planar p G'"
    by blast
  show ?case
  proof (cases stop)
    case True
    with st G' show ?thesis by simp
  next
    case False
    with cont have "pmfg_inv is_planar p G'" by simp
    with Cons.IH Cons.prems(1) st False show ?thesis by simp
  qed
qed

lemma add_nodes_from_nodes: "set (nodes (add_nodes_from G vs)) = set (nodes G) \<union> set vs"
  unfolding add_nodes_from_def
  by (induction vs arbitrary: G) (auto simp: add_node_def)

lemma add_nodes_from_edges: "edges (add_nodes_from G vs) = edges G"
  unfolding add_nodes_from_def
  by (induction vs arbitrary: G) (auto simp: add_node_def)

lemma add_nodes_from_upt: "nodes (add_nodes_from empty_graph [0..<p]) = [0..<p]"
proof (induction p)
  case 0
  then show ?case by (simp add: add_nodes_from_def empty_graph_def)
next
  case (Suc p)
  then show ?case
    by (simp add: add_nodes_from_def add_node_def)
qed

text \<open>
  C3, amended: for every \<open>p \<times> p\<close> matrix with \<open>p \<ge> 3\<close>, and every planarity test
  that accepts the graph without edges, \<open>pmfg\<close> returns a graph that passes the test
  and has at most \<open>3p - 6\<close> edges; the graph passes the test after every pass of the
  loop (an edge that fails the test is removed again).
\<close>

theorem pmfg_planar_bounded:
  assumes "is_square corr" and "3 \<le> length corr"
    and "is_planar [0..<length corr] []"
  shows "\<exists>G. pmfg is_planar corr = Inr G \<and> check_planarity is_planar G \<and>
           int (number_of_edges G) \<le> 3 * int (length corr) - 6 \<and>
           (\<forall>n. \<exists>G'. pmfg_after is_planar corr n = Inr G' \<and> check_planarity is_planar G')"
proof -
  let ?p = "length corr"
  let ?vals = "rev (argsort (concat corr))"
  let ?G0 = "add_nodes_from empty_graph [0..<?p]"
  have vals: "\<forall>v \<in> set ?vals. v < ?p * ?p"
    using assms(1) by (simp add: argsort_set concat_square_length)
  have e0: "edges ?G0 = []"
    by (simp add: add_nodes_from_edges empty_graph_def)
  have inv0: "pmfg_inv is_planar ?p ?G0"
    using assms(2,3)
    by (simp add: pmfg_inv_def check_planarity_def add_nodes_from_upt e0 number_of_edges_def)
  from pmfg_loop_inv[OF assms(1) refl vals inv0] obtain G where
    G: "pmfg_loop is_planar corr ?p ?vals ?G0 = Inr G" "check_planarity is_planar G"
      "int (number_of_edges G) \<le> 3 * (int ?p - 2)"
    by blast
  have "\<exists>G'. pmfg_after is_planar corr n = Inr G' \<and> check_planarity is_planar G'" for n
  proof -
    have "\<forall>v \<in> set (take n ?vals). v < ?p * ?p"
      using vals by (meson in_set_takeD)
    from pmfg_loop_inv[OF assms(1) refl this inv0] show ?thesis
      unfolding pmfg_after_def by blast
  qed
  with G show ?thesis
    by (auto simp: pmfg_def Let_def)
qed

theorem pmfg_planar_bounded_witness:
  "\<exists>G. pmfg small_graph_planarity small_corr = Inr G \<and> check_planarity small_graph_planarity G \<and>
        int (number_of_edges G) \<le> 3 * int (length small_corr) - 6 \<and>
        (\<forall>n. \<exists>G'. pmfg_after small_graph_planarity small_corr n = Inr G' \<and>
              check_planarity small_graph_planarity G')"
  using pmfg_planar_bounded[of small_corr small_graph_planarity]
  by (simp add: small_corr_def is_square_def small_graph_planarity_def)

subsection \<open>The arrays of the caller\<close>

text \<open>
  On the store each graph builder returns what it returns on the value of its
  argument, and ends in the store it started in; \<open>tmfg\<close> with \<open>absolute\<close> set has
  allocated one array, the absolute values.
\<close>

lemma tmfg_loop_st_eq:
  "tmfg_loop_st corr W st ns fs G h = (tmfg_loop (arrays2 h ! corr) (arrays2 h ! W) st ns fs G, h)"
proof (induction corr W st ns fs G h rule: tmfg_loop_st.induct)
  case (1 corr W st ns fs G h)
  show ?case
    using 1
    by (simp add: tmfg_loop_st.simps[of corr W st ns fs G h]
        tmfg_loop.simps[of "arrays2 h ! corr" "arrays2 h ! W" st ns fs G] tmfg_body_st_eq
        split: sum.splits prod.splits)
qed

lemma pmfg_step_st_eq:
  "pmfg_step_st is_planar corr p v G h = (pmfg_step is_planar (arrays2 h ! corr) p v G, h)"
  by (simp add: pmfg_step_st_def pmfg_step_def Let_def split: sum.splits prod.splits)

lemma pmfg_loop_st_eq:
  "pmfg_loop_st is_planar corr p vals G h = (pmfg_loop is_planar (arrays2 h ! corr) p vals G, h)"
  by (induction vals arbitrary: G) (simp_all add: pmfg_step_st_eq split: sum.splits prod.splits)

lemma pmfg_st_eq: "pmfg_st is_planar corr h = (pmfg is_planar (arrays2 h ! corr), h)"
  by (simp add: pmfg_st_def pmfg_def pmfg_loop_st_eq Let_def)

lemma knn_inner_st_eq:
  "knn_inner_st corr k i js num G h = (knn_inner (arrays2 h ! corr) k i js num G, h)"
  by (induction js arbitrary: num G) (simp_all split: sum.splits)

lemma knn_outer_st_eq:
  "knn_outer_st corr k is G h = (knn_outer (arrays2 h ! corr) k is G, h)"
  by (induction "is" arbitrary: G) (simp_all add: knn_inner_st_eq split: sum.splits)

lemma knn_st_eq: "knn_st corr k h = (knn (arrays2 h ! corr) k, h)"
  by (simp add: knn_st_def knn_def knn_outer_st_eq)

lemma mst_loop_st_eq:
  "mst_loop_st corr p vals components G h = (mst_loop (arrays2 h ! corr) p vals components G, h)"
proof (induction vals arbitrary: components G)
  case Nil
  then show ?case by simp
next
  case (Cons v vals)
  show ?case
    by (cases "unravel_index v p")
       (auto simp: Cons Let_def split: sum.splits)
qed

lemma mst_st_eq: "mst_st corr h = (mst (arrays2 h ! corr), h)"
  by (simp add: mst_st_def mst_def mst_loop_st_eq Let_def)

lemma tmfg_st_eq:
  assumes "corr < length (arrays2 h)"
  shows "tmfg_st corr absolute h
     = (tmfg (arrays2 h ! corr) absolute,
        if absolute then snd (alloc2 h (map (map abs) (arrays2 h ! corr))) else h)"
proof (cases absolute)
  case True
  let ?h0 = "h\<lparr>arrays2 := arrays2 h @ [map (map abs) (arrays2 h ! corr)]\<rparr>"
  have a: "arrays2 ?h0 ! corr = arrays2 h ! corr"
    "arrays2 ?h0 ! length (arrays2 h) = map (map abs) (arrays2 h ! corr)"
    using assms by (simp_all add: nth_append)
  show ?thesis
    unfolding tmfg_st_def tmfg_def alloc2_def Let_def add_triangular_face_st_eq tmfg_loop_st_eq
    using True a by (simp split: sum.splits)
next
  case False
  show ?thesis
    unfolding tmfg_st_def tmfg_def alloc2_def Let_def add_triangular_face_st_eq tmfg_loop_st_eq
    using False by (simp split: sum.splits)
qed

text \<open>
  The transforms write to the arrays they allocate: every array that was in the store
  at the call is in the store at the end, unchanged, also when the call raises.
\<close>

lemma for_each_st_invariant:
  assumes "I h" and "\<And>x acc s. x \<in> set xs \<Longrightarrow> I s \<Longrightarrow> I (snd (body x acc s))"
  shows "I (snd (for_each_st xs body acc h))"
  using assms
proof (induction xs arbitrary: acc h)
  case Nil
  then show ?case by simp
next
  case (Cons x xs)
  obtain r h' where b: "body x acc h = (r, h')"
    by (cases "body x acc h") auto
  have h': "I h'"
    using Cons.prems(2)[of x h acc] Cons.prems(1) b by simp
  show ?case
  proof (cases r)
    case (Inl e)
    with b h' show ?thesis by simp
  next
    case (Inr acc')
    have "I (snd (for_each_st xs body acc' h'))"
      by (rule Cons.IH[OF h']) (simp add: Cons.prems(2))
    with b Inr show ?thesis by simp
  qed
qed

lemma for_each_st_preserves:
  assumes "preserves h0 s" and "\<And>x acc t. preserves h0 t \<Longrightarrow> preserves h0 (snd (body x acc t))"
  shows "preserves h0 (snd (for_each_st xs body acc s))"
  using for_each_st_invariant[where I = "preserves h0" and body = body and xs = xs and h = s
      and acc = acc] assms
  by blast

lemma setitem2_outcome_preserves:
  assumes "preserves h0 s" "length (arrays2 h0) \<le> a"
  shows "preserves h0 (snd (case setitem2 s a i j v of
                               Inl e \<Rightarrow> (Inl e, s) | Inr s' \<Rightarrow> (Inr x, s')))"
  using assms by (auto split: sum.splits dest: setitem2_preserves)

lemma setitem3_outcome_preserves:
  assumes "preserves h0 s" "length (arrays3 h0) \<le> a"
  shows "preserves h0 (snd (case setitem3 s a i j k v of
                               Inl e \<Rightarrow> (Inl e, s) | Inr s' \<Rightarrow> (Inr x, s')))"
  using assms by (auto split: sum.splits dest: setitem3_preserves)

lemma partial_correlation_st_preserves:
  "preserves h (snd (partial_correlation_st linalg_inv corr h))"
proof (cases "linalg_inv (arrays2 h ! corr)")
  case (Inl e)
  then show ?thesis
    by (simp add: partial_correlation_st_def preserves_refl)
next
  case (Inr P)
  let ?p = "length (arrays2 h ! corr)"
  let ?prec = "length (arrays2 h)"
  let ?pc = "Suc (length (arrays2 h))"
  let ?h2 = "h\<lparr>arrays2 := arrays2 h @ [P, zeros2 ?p ?p]\<rparr>"
  let ?loops = "for_each_st [0..<?p] (\<lambda>i. for_each_st [0..<?p] (\<lambda>j u h.
                        case getitem2 (arrays2 h ! ?prec) i j of Inl e \<Rightarrow> (Inl e, h) | Inr pij \<Rightarrow>
                        (case getitem2 (arrays2 h ! ?prec) i i of Inl e \<Rightarrow> (Inl e, h) | Inr pii \<Rightarrow>
                        (case getitem2 (arrays2 h ! ?prec) j j of Inl e \<Rightarrow> (Inl e, h) | Inr pjj \<Rightarrow>
                        (case setitem2 h ?pc i j (- pij / sqrt (pii * pjj)) of
                           Inl e \<Rightarrow> (Inl e, h)
                         | Inr h' \<Rightarrow> (Inr (), h')))))) () ?h2"
  have p2: "preserves h ?h2"
    by (simp add: preserves_def)
  have p3: "preserves h (snd ?loops)"
    by (rule for_each_st_preserves[OF p2], rule for_each_st_preserves, assumption)
       (simp add: setitem2_outcome_preserves split: sum.splits)
  have eq: "partial_correlation_st linalg_inv corr h
      = (case ?loops of (Inl e, h3) \<Rightarrow> (Inl e, h3) | (Inr u, h3) \<Rightarrow> (Inr ?pc, fill_diagonal h3 ?pc 1))"
    using Inr by (simp add: partial_correlation_st_def alloc2_def Let_def
        cong: prod.case_cong sum.case_cong)
  obtain r h3 where l: "?loops = (r, h3)"
    by (cases ?loops) auto
  have "preserves h h3"
    using p3 l by simp
  then have "preserves h h3 \<and> preserves h (fill_diagonal h3 ?pc 1)"
    by (simp add: preserves_def fill_diagonal_def take_update_cancel)
  then show ?thesis
    unfolding eq l by (cases r) simp_all
qed

lemma dependency_network_st_preserves:
  "preserves h (snd (dependency_network_st corr h))"
proof -
  let ?p = "length (arrays2 h ! corr)"
  let ?D = "length (arrays3 h)"
  let ?h1 = "h\<lparr>arrays3 := arrays3 h @ [zeros3 ?p ?p ?p]\<rparr>"
  let ?l1 = "for_each_st [0..<?p] (\<lambda>i. for_each_st [0..<?p] (\<lambda>j. for_each_st [0..<?p]
               (\<lambda>k not_finite h.
                if i = j \<or> i = k \<or> j = k then (Inr not_finite, h)
                else (case getitem2 (arrays2 h ! corr) i j of Inl e \<Rightarrow> (Inl e, h) | Inr cij \<Rightarrow>
                     (case calculate_partial_correlation (arrays2 h ! corr) i j k of
                        Inl e \<Rightarrow>
                          if e = NotFinite
                          then (case setitem3 h ?D i j k 0 of
                                  Inl e \<Rightarrow> (Inl e, h)
                                | Inr h' \<Rightarrow> (Inr True, h'))
                          else (Inl e, h)
                      | Inr pc \<Rightarrow>
                          (case setitem3 h ?D i j k (cij - pc) of
                             Inl e \<Rightarrow> (Inl e, h)
                           | Inr h' \<Rightarrow> (Inr not_finite, h')))))))"
  let ?l2 = "for_each_st [0..<?p] (\<lambda>i. for_each_st [0..<?p] (\<lambda>j u h.
                 case setitem3 h ?D i j j 1 of
                   Inl e \<Rightarrow> (Inl e, h)
                 | Inr h' \<Rightarrow> (Inr (), h')))"
  let ?l3 = "\<lambda>dn. for_each_st [0..<?p] (\<lambda>i. for_each_st [0..<?p] (\<lambda>k u h.
                        if i = k then (Inr (), h)
                        else (case getitem_masked (arrays3 h ! ?D) i (map (\<lambda>x. i \<noteq> x) [0..<?p]) k of
                                Inl e \<Rightarrow> (Inl e, h)
                              | Inr xs \<Rightarrow>
                                  (case setitem2 h dn k i (sum_list xs / (real ?p - 1)) of
                                     Inl e \<Rightarrow> (Inl e, h)
                                   | Inr h' \<Rightarrow> (Inr (), h')))))"
  have eq: "dependency_network_st corr h =
      (case ?l1 False ?h1 of
           (Inl e, h2) \<Rightarrow> (Inl e, h2)
         | (Inr not_finite, h2) \<Rightarrow>
        (case ?l2 () h2 of
           (Inl e, h3) \<Rightarrow> (Inl e, h3)
         | (Inr u, h3) \<Rightarrow>
             (case ?l3 (length (arrays2 h3)) () (h3\<lparr>arrays2 := arrays2 h3 @ [zeros2 ?p ?p]\<rparr>) of
                   (Inl e, h5) \<Rightarrow> (Inl e, h5)
                 | (Inr u, h5) \<Rightarrow>
                     if not_finite then (Inl NotFinite, h5)
                     else (Inr (length (arrays2 h3)), h5))))"
    by (simp add: dependency_network_st_def alloc3_def alloc2_def Let_def
        cong: prod.case_cong sum.case_cong)
  have p1: "preserves h ?h1"
    by (simp add: preserves_def)
  have q1: "preserves h (snd (?l1 acc s))" if "preserves h s" for s acc
    by (rule for_each_st_preserves[OF that], rule for_each_st_preserves, assumption,
        rule for_each_st_preserves, assumption)
       (auto split: sum.splits dest: setitem3_preserves)
  have q2: "preserves h (snd (?l2 acc s))" if "preserves h s" for s acc
    by (rule for_each_st_preserves[OF that], rule for_each_st_preserves, assumption)
       (simp add: setitem3_outcome_preserves)
  have q3: "preserves h (snd (?l3 dn acc s))" if "preserves h s" "length (arrays2 h) \<le> dn"
    for s dn acc
    by (rule for_each_st_preserves[OF that(1)], rule for_each_st_preserves, assumption)
       (simp add: setitem2_outcome_preserves that(2) split: sum.splits)
  obtain r2 h2 where l1: "?l1 False ?h1 = (r2, h2)"
    by (cases "?l1 False ?h1") auto
  have h2: "preserves h h2"
    using q1[OF p1, of False] l1 by simp
  obtain r3 h3 where l2: "?l2 () h2 = (r3, h3)"
    by (cases "?l2 () h2") auto
  have h3: "preserves h h3"
    using q2[OF h2, of "()"] l2 by simp
  let ?h4 = "h3\<lparr>arrays2 := arrays2 h3 @ [zeros2 ?p ?p]\<rparr>"
  have h4: "preserves h ?h4"
    using h3 preserves_length[OF h3] by (simp add: preserves_def)
  obtain r5 h5 where l3: "?l3 (length (arrays2 h3)) () ?h4 = (r5, h5)"
    by (cases "?l3 (length (arrays2 h3)) () ?h4") auto
  have h5: "preserves h h5"
    using q3[OF h4, of "length (arrays2 h3)" "()"] preserves_length[OF h3] l3 by simp
  show ?thesis
    unfolding eq l1
    by (cases r2; cases r3; cases r5) (simp_all add: h2 h3 h5 l2 l3)
qed

text \<open>
  The transforms on the store agree with the transforms as modelled first, which do
  not keep the store of a call that raises and stop where a run leaves the real
  numbers: the same exception, or the same result and the same store.
\<close>

lemma for_each_st_returned:
  assumes "\<And>x s. map_sum id snd (returned (body_st x () s)) = body x s"
  shows "map_sum id snd (returned (for_each_st xs body_st () s)) = for_each xs body s"
proof (induction xs arbitrary: s)
  case Nil
  then show ?case by (simp add: returned_def)
next
  case (Cons x xs)
  obtain r s' where b: "body_st x () s = (r, s')"
    by (cases "body_st x () s") auto
  have bx: "body x s = map_sum id snd (returned (r, s'))"
    using assms[of x s] b by simp
  show ?case
  proof (cases r)
    case (Inl e)
    then show ?thesis
      by (simp add: b bx returned_def)
  next
    case (Inr u)
    then show ?thesis
      using Cons.IH[of s'] by (simp add: b bx returned_def)
  qed
qed

lemma outcome_case_returned:
  assumes "map_sum id snd (returned r) = r'" and "\<And>s. returned (f s) = f' s"
  shows "returned (case r of (Inl e, s) \<Rightarrow> (Inl e, s) | (Inr (u :: unit), s) \<Rightarrow> f s)
     = (case r' of Inl e \<Rightarrow> Inl e | Inr s \<Rightarrow> f' s)"
proof -
  obtain x s where r: "r = (x, s)"
    by (cases r) auto
  have r': "r' = map_sum id snd (returned (x, s))"
    using assms(1) r by simp
  show ?thesis
    unfolding r r' using assms(2)[of s] by (cases x) (simp_all add: returned_def)
qed

lemma partial_correlation_st_returned:
  "returned (partial_correlation_st linalg_inv corr h) = partial_correlation linalg_inv h corr"
proof (cases "linalg_inv (arrays2 h ! corr)")
  case (Inl e)
  then show ?thesis
    by (simp add: partial_correlation_st_def partial_correlation_def returned_def)
next
  case (Inr P)
  let ?p = "length (arrays2 h ! corr)"
  let ?prec = "length (arrays2 h)"
  let ?pc = "Suc (length (arrays2 h))"
  let ?h2 = "h\<lparr>arrays2 := arrays2 h @ [P, zeros2 ?p ?p]\<rparr>"
  let ?b_st = "\<lambda>i j (u :: unit) h.
                        case getitem2 (arrays2 h ! ?prec) i j of Inl e \<Rightarrow> (Inl e, h) | Inr pij \<Rightarrow>
                        (case getitem2 (arrays2 h ! ?prec) i i of Inl e \<Rightarrow> (Inl e, h) | Inr pii \<Rightarrow>
                        (case getitem2 (arrays2 h ! ?prec) j j of Inl e \<Rightarrow> (Inl e, h) | Inr pjj \<Rightarrow>
                        (case setitem2 h ?pc i j (- pij / sqrt (pii * pjj)) of
                           Inl e \<Rightarrow> (Inl e, h)
                         | Inr h' \<Rightarrow> (Inr (), h'))))"
  let ?b = "\<lambda>i j h. case getitem2 (arrays2 h ! ?prec) i j of Inl e \<Rightarrow> Inl e | Inr pij \<Rightarrow>
                        (case getitem2 (arrays2 h ! ?prec) i i of Inl e \<Rightarrow> Inl e | Inr pii \<Rightarrow>
                        (case getitem2 (arrays2 h ! ?prec) j j of Inl e \<Rightarrow> Inl e | Inr pjj \<Rightarrow>
                           setitem2 h ?pc i j (- pij / sqrt (pii * pjj))))"
  have body: "map_sum id snd (returned (?b_st i j () s)) = ?b i j s" for i j s
    by (simp add: returned_def split: sum.splits)
  have inner: "map_sum id snd (returned (for_each_st [0..<?p] (?b_st i) () s))
      = for_each [0..<?p] (?b i) s" for i s
    by (rule for_each_st_returned) (rule body)
  have e1: "partial_correlation_st linalg_inv corr h
      = (case for_each_st [0..<?p] (\<lambda>i. for_each_st [0..<?p] (?b_st i)) () ?h2 of
           (Inl e, h3) \<Rightarrow> (Inl e, h3) | (Inr u, h3) \<Rightarrow> (Inr ?pc, fill_diagonal h3 ?pc 1))"
    using Inr by (simp add: partial_correlation_st_def alloc2_def Let_def
        cong: prod.case_cong sum.case_cong)
  have e2: "partial_correlation linalg_inv h corr
      = (case for_each [0..<?p] (\<lambda>i. for_each [0..<?p] (?b i)) ?h2 of
           Inl e \<Rightarrow> Inl e | Inr h3 \<Rightarrow> Inr (?pc, fill_diagonal h3 ?pc 1))"
    using Inr by (simp add: partial_correlation_def alloc2_def Let_def
        cong: prod.case_cong sum.case_cong)
  have outer: "map_sum id snd (returned (for_each_st [0..<?p] (\<lambda>i. for_each_st [0..<?p] (?b_st i)) () ?h2))
      = for_each [0..<?p] (\<lambda>i. for_each [0..<?p] (?b i)) ?h2"
    by (rule for_each_st_returned) (rule inner)
  show ?thesis
    unfolding e1 e2
    by (rule outcome_case_returned[OF outer]) (simp add: returned_def)
qed

text \<open>
  A loop that carries the flag goes the way of the loop that stops where a run leaves
  the real numbers, as long as that one does not stop there: it raises the same
  exception, or ends in the same store with the flag not set.
\<close>

lemma for_each_st_flag:
  assumes "\<And>x s. case body x s of
                    Inl e \<Rightarrow> e = NotFinite \<or> fst (body_st x False s) = Inl e
                  | Inr s' \<Rightarrow> body_st x False s = (Inr False, s')"
  shows "case for_each xs body s of
           Inl e \<Rightarrow> e = NotFinite \<or> fst (for_each_st xs body_st False s) = Inl e
         | Inr s' \<Rightarrow> for_each_st xs body_st False s = (Inr False, s')"
proof (induction xs arbitrary: s)
  case Nil
  then show ?case by simp
next
  case (Cons x xs)
  show ?case
  proof (cases "body x s")
    case (Inl e)
    show ?thesis
    proof (cases "e = NotFinite")
      case True
      with Inl show ?thesis by simp
    next
      case False
      with assms[of x s] Inl have "fst (body_st x False s) = Inl e"
        by simp
      then obtain s' where "body_st x False s = (Inl e, s')"
        by (cases "body_st x False s") auto
      with Inl show ?thesis by simp
    qed
  next
    case (Inr s')
    with assms[of x s] have c: "body_st x False s = (Inr False, s')"
      by simp
    have "for_each (x # xs) body s = for_each xs body s'"
      using Inr by simp
    moreover have "for_each_st (x # xs) body_st False s = for_each_st xs body_st False s'"
      using c by simp
    ultimately show ?thesis
      using Cons.IH[of s'] by (simp only:)
  qed
qed

lemma dependency_network_st_returned:
  assumes "dependency_network h corr \<noteq> Inl NotFinite"
  shows "returned (dependency_network_st corr h) = dependency_network h corr"
proof -
  let ?p = "length (arrays2 h ! corr)"
  let ?D = "length (arrays3 h)"
  let ?h1 = "h\<lparr>arrays3 := arrays3 h @ [zeros3 ?p ?p ?p]\<rparr>"
  let ?b1_st = "\<lambda>i j k not_finite h.
                if i = j \<or> i = k \<or> j = k then (Inr not_finite, h)
                else (case getitem2 (arrays2 h ! corr) i j of Inl e \<Rightarrow> (Inl e, h) | Inr cij \<Rightarrow>
                     (case calculate_partial_correlation (arrays2 h ! corr) i j k of
                        Inl e \<Rightarrow>
                          if e = NotFinite
                          then (case setitem3 h ?D i j k 0 of
                                  Inl e \<Rightarrow> (Inl e, h)
                                | Inr h' \<Rightarrow> (Inr True, h'))
                          else (Inl e, h)
                      | Inr pc \<Rightarrow>
                          (case setitem3 h ?D i j k (cij - pc) of
                             Inl e \<Rightarrow> (Inl e, h)
                           | Inr h' \<Rightarrow> (Inr not_finite, h'))))"
  let ?b1 = "\<lambda>i j k h.
                if i = j \<or> i = k \<or> j = k then Inr h
                else (case getitem2 (arrays2 h ! corr) i j of Inl e \<Rightarrow> Inl e | Inr cij \<Rightarrow>
                     (case calculate_partial_correlation (arrays2 h ! corr) i j k of
                        Inl e \<Rightarrow> Inl e
                      | Inr pc \<Rightarrow> setitem3 h ?D i j k (cij - pc)))"
  let ?b2_st = "\<lambda>i j (u :: unit) h.
                 case setitem3 h ?D i j j 1 of
                   Inl e \<Rightarrow> (Inl e, h)
                 | Inr h' \<Rightarrow> (Inr (), h')"
  let ?b3_st = "\<lambda>dn i k (u :: unit) h.
                        if i = k then (Inr (), h)
                        else (case getitem_masked (arrays3 h ! ?D) i (map (\<lambda>x. i \<noteq> x) [0..<?p]) k of
                                Inl e \<Rightarrow> (Inl e, h)
                              | Inr xs \<Rightarrow>
                                  (case setitem2 h dn k i (sum_list xs / (real ?p - 1)) of
                                     Inl e \<Rightarrow> (Inl e, h)
                                   | Inr h' \<Rightarrow> (Inr (), h')))"
  let ?b3 = "\<lambda>dn i k h.
                        if i = k then Inr h
                        else (case getitem_masked (arrays3 h ! ?D) i (map (\<lambda>x. i \<noteq> x) [0..<?p]) k of
                                Inl e \<Rightarrow> Inl e
                              | Inr xs \<Rightarrow>
                                  setitem2 h dn k i (sum_list xs / (real ?p - 1)))"
  let ?l1_st = "for_each_st [0..<?p] (\<lambda>i. for_each_st [0..<?p] (\<lambda>j. for_each_st [0..<?p] (?b1_st i j)))"
  let ?l1 = "for_each [0..<?p] (\<lambda>i. for_each [0..<?p] (\<lambda>j. for_each [0..<?p] (?b1 i j)))"
  let ?l2_st = "for_each_st [0..<?p] (\<lambda>i. for_each_st [0..<?p] (?b2_st i))"
  let ?l2 = "for_each [0..<?p] (\<lambda>i. for_each [0..<?p] (\<lambda>j h. setitem3 h ?D i j j 1))"
  let ?l3_st = "\<lambda>dn. for_each_st [0..<?p] (\<lambda>i. for_each_st [0..<?p] (?b3_st dn i))"
  let ?l3 = "\<lambda>dn. for_each [0..<?p] (\<lambda>i. for_each [0..<?p] (?b3 dn i))"
  let ?rest_st = "\<lambda>not_finite h2.
        (case ?l2_st () h2 of
           (Inl e, h3) \<Rightarrow> (Inl e, h3)
         | (Inr u, h3) \<Rightarrow>
             (case ?l3_st (length (arrays2 h3)) () (h3\<lparr>arrays2 := arrays2 h3 @ [zeros2 ?p ?p]\<rparr>) of
                   (Inl e, h5) \<Rightarrow> (Inl e, h5)
                 | (Inr u, h5) \<Rightarrow>
                     if not_finite then (Inl NotFinite, h5)
                     else (Inr (length (arrays2 h3)), h5)))"
  let ?rest = "\<lambda>h2.
        (case ?l2 h2 of
           Inl e \<Rightarrow> Inl e
         | Inr h3 \<Rightarrow>
             (case ?l3 (length (arrays2 h3)) (h3\<lparr>arrays2 := arrays2 h3 @ [zeros2 ?p ?p]\<rparr>) of
                   Inl e \<Rightarrow> Inl e
                 | Inr h5 \<Rightarrow> Inr (length (arrays2 h3), h5)))"
  have b1: "case ?b1 i j k s of
              Inl e \<Rightarrow> e = NotFinite \<or> fst (?b1_st i j k False s) = Inl e
            | Inr s' \<Rightarrow> ?b1_st i j k False s = (Inr False, s')" for i j k s
    by (simp split: sum.splits)
  have r1: "case ?l1 s of
              Inl e \<Rightarrow> e = NotFinite \<or> fst (?l1_st False s) = Inl e
            | Inr s' \<Rightarrow> ?l1_st False s = (Inr False, s')" for s
    by (rule for_each_st_flag, rule for_each_st_flag, rule for_each_st_flag, rule b1)
  have b2: "map_sum id snd (returned (?b2_st i j () s)) = setitem3 s ?D i j j 1" for i j s
    by (simp add: returned_def split: sum.splits)
  have b3: "map_sum id snd (returned (?b3_st dn i k () s)) = ?b3 dn i k s" for dn i k s
    by (simp add: returned_def split: sum.splits)
  have r2: "map_sum id snd (returned (?l2_st () s)) = ?l2 s" for s
    by (rule for_each_st_returned, rule for_each_st_returned, rule b2)
  have r3: "map_sum id snd (returned (?l3_st dn () s)) = ?l3 dn s" for dn s
    by (rule for_each_st_returned, rule for_each_st_returned, rule b3)
  have rest: "returned (?rest_st False h2) = ?rest h2" for h2
    by (rule outcome_case_returned[OF r2], rule outcome_case_returned[OF r3])
       (simp add: returned_def)
  have e1: "dependency_network_st corr h =
      (case ?l1_st False ?h1 of
           (Inl e, h2) \<Rightarrow> (Inl e, h2)
         | (Inr not_finite, h2) \<Rightarrow> ?rest_st not_finite h2)"
    by (simp add: dependency_network_st_def alloc3_def alloc2_def Let_def
        cong: prod.case_cong sum.case_cong)
  have e2: "dependency_network h corr =
      (case ?l1 ?h1 of Inl e \<Rightarrow> Inl e | Inr h2 \<Rightarrow> ?rest h2)"
    by (simp add: dependency_network_def alloc3_def alloc2_def Let_def
        cong: prod.case_cong sum.case_cong if_cong)
  show ?thesis
  proof (cases "?l1 ?h1")
    case (Inl e)
    with assms e2 have ne: "e \<noteq> NotFinite"
      by simp
    with r1[of ?h1] Inl have "fst (?l1_st False ?h1) = Inl e"
      by simp
    then obtain s' where "?l1_st False ?h1 = (Inl e, s')"
      by (cases "?l1_st False ?h1") auto
    then show ?thesis
      unfolding e1 e2 Inl by (simp add: returned_def)
  next
    case (Inr h2)
    with r1[of ?h1] have "?l1_st False ?h1 = (Inr False, h2)"
      by simp
    then show ?thesis
      unfolding e1 e2 Inr using rest[of h2] by simp
  qed
qed


text \<open>
  On \<open>dup_corr\<close>, where \<open>partialcorr(0, 2 | 1)\<close> is not a real number, the run on
  the store goes through all the loops and ends at the \<open>return\<close> with the flag set.
\<close>

lemma dependency_network_st_degenerate:
  "fst (dependency_network_st 0 dup_heap) = Inl NotFinite"
  by (simp add: dup_corr_def dup_heap_def getitem2_def upt3 calculate_partial_correlation_def
      dependency_network_st_def alloc3_def alloc2_def zeros3_def zeros2_def setitem3_def
      setitem2_def getitem_masked_def Let_def numeral_3_eq_3)

text \<open>
  C10. No public operation changes its input matrix. After \<open>threshold\<close> (which
  works on a copy), after \<open>partial_correlation\<close> and \<open>dependency_network\<close> (which
  write to arrays they allocate) and after each of the graph builders \<open>tmfg\<close>,
  \<open>pmfg\<close>, \<open>mst\<close> and \<open>knn\<close> (which only read, through an alias or a view as
  well), whether the call returns or raises, the array behind the argument holds the
  values it held before the call. A run of \<open>dependency_network\<close> that leaves the real
  numbers is followed to its end as well.
\<close>

theorem operations_preserve_input:
  assumes "corr < length (arrays2 h)"
  shows "arrays2 (snd (threshold h corr t binary absolute)) ! corr = arrays2 h ! corr \<and>
     arrays2 (snd (partial_correlation_st linalg_inv corr h)) ! corr = arrays2 h ! corr \<and>
     arrays2 (snd (dependency_network_st corr h)) ! corr = arrays2 h ! corr \<and>
     arrays2 (snd (tmfg_st corr tmfg_absolute h)) ! corr = arrays2 h ! corr \<and>
     arrays2 (snd (pmfg_st is_planar corr h)) ! corr = arrays2 h ! corr \<and>
     arrays2 (snd (mst_st corr h)) ! corr = arrays2 h ! corr \<and>
     arrays2 (snd (knn_st corr k h)) ! corr = arrays2 h ! corr"
proof -
  have keep: "arrays2 h' ! corr = arrays2 h ! corr" if "preserves h h'" for h'
  proof -
    from that have "take (length (arrays2 h)) (arrays2 h') ! corr = arrays2 h ! corr"
      by (simp add: preserves_def)
    with assms show ?thesis by simp
  qed
  have "arrays2 (snd (threshold h corr t binary absolute)) ! corr = arrays2 h ! corr"
    using assms by (simp add: threshold_eq nth_append)
  moreover have "arrays2 (snd (partial_correlation_st linalg_inv corr h)) ! corr = arrays2 h ! corr"
    by (rule keep) (rule partial_correlation_st_preserves)
  moreover have "arrays2 (snd (dependency_network_st corr h)) ! corr = arrays2 h ! corr"
    by (rule keep) (rule dependency_network_st_preserves)
  moreover have "arrays2 (snd (tmfg_st corr tmfg_absolute h)) ! corr = arrays2 h ! corr"
    using assms by (simp add: tmfg_st_eq alloc2_def nth_append)
  moreover have "arrays2 (snd (pmfg_st is_planar corr h)) ! corr = arrays2 h ! corr"
    by (simp add: pmfg_st_eq)
  moreover have "arrays2 (snd (mst_st corr h)) ! corr = arrays2 h ! corr"
    by (simp add: mst_st_eq)
  moreover have "arrays2 (snd (knn_st corr k h)) ! corr = arrays2 h ! corr"
    by (simp add: knn_st_eq)
  ultimately show ?thesis
    by (intro conjI)
qed

theorem operations_preserve_input_witness:
  "arrays2 (snd (threshold small_heap 0 (1/2) False True)) ! 0 = small_corr \<and>
   arrays2 (snd (partial_correlation_st inv2 0 small_heap)) ! 0 = small_corr \<and>
   arrays2 (snd (dependency_network_st 0 small_heap)) ! 0 = small_corr \<and>
   arrays2 (snd (tmfg_st 0 True small_heap)) ! 0 = small_corr \<and>
   arrays2 (snd (pmfg_st small_graph_planarity 0 small_heap)) ! 0 = small_corr \<and>
   arrays2 (snd (mst_st 0 small_heap)) ! 0 = small_corr \<and>
   arrays2 (snd (knn_st 0 1 small_heap)) ! 0 = small_corr \<and>
   arrays2 (snd (dependency_network_st 0 dup_heap)) ! 0 = dup_corr"
  using operations_preserve_input[where corr = 0 and h = small_heap and t = "1/2"
      and binary = False and absolute = True and linalg_inv = inv2 and tmfg_absolute = True
      and is_planar = small_graph_planarity and k = 1]
    operations_preserve_input[where corr = 0 and h = dup_heap and t = "1/2"
      and binary = False and absolute = True and linalg_inv = inv2 and tmfg_absolute = True
      and is_planar = small_graph_planarity and k = 1]
  by (simp add: small_heap_def dup_heap_def)

subsection \<open>Spanning tree\<close>




























































end
